theory Spec2Isabelle
  imports Main "HOL-Library.Sublist"
begin

section \<open>Data model\<close>

text \<open>
  The records follow the object shapes that \<^verbatim>\<open>src/App.tsx\<close> builds and reads
  (\<^verbatim>\<open>types.ts\<close> itself is not among the sources). A JavaScript string is a
  \<^typ>\<open>string\<close>; a \<^typ>\<open>char\<close> stands for a code unit below 256. An optional field
  (one the code reads with \<^verbatim>\<open>?.\<close>, \<^verbatim>\<open>||\<close> or \<^verbatim>\<open>!\<close>) is an \<^typ>\<open>'a option\<close>.
  An aspect ratio is the string that is interpolated into the task id. The image count
  (the value of the range input, 1 to 8) and a reading of \<^verbatim>\<open>Date.now()\<close> are natural
  numbers.
\<close>

datatype task_status = Pending | Generating | Success | Error

datatype tab = Create | Gallery | Favorites

record generated_image =
  i_id :: string
  i_batchId :: string
  i_url :: string
  i_prompt :: string
  i_aspectRatio :: string
  i_resolution :: string
  i_timestamp :: nat
  i_styleId :: string
  i_referenceImages :: "string list"
  i_isFavorite :: "bool option"

record generation_task =
  t_id :: string
  t_batchId :: "string option"
  t_status :: task_status
  t_aspectRatio :: string
  t_prompt :: string
  t_placeholder :: bool
  t_data :: "generated_image option"
  t_error :: "string option"

record style_preset =
  p_id :: string
  p_name :: string
  p_description :: string
  p_icon :: "string option"
  p_referenceImages :: "string list option"

record generation_params =
  gp_aspectRatios :: "string list"
  gp_resolution :: string
  gp_count :: nat

record lightbox_state =
  lb_isOpen :: bool
  lb_images :: "generated_image list"
  lb_currentIndex :: nat

text \<open>
  One call of \<^verbatim>\<open>generateSingleImage\<close> that has been issued and has not settled yet:
  the arguments of the call, and what its \<^verbatim>\<open>then\<close>/\<^verbatim>\<open>catch\<close> callbacks captured
  (\<^verbatim>\<open>task\<close>, \<^verbatim>\<open>batchId\<close>, \<^verbatim>\<open>finalPrompt\<close>, \<^verbatim>\<open>finalRefImages\<close>,
  \<^verbatim>\<open>params.resolution\<close>, \<^verbatim>\<open>selectedStyleId\<close>). The aspect ratio sent is
  \<^verbatim>\<open>task.aspectRatio\<close>.
\<close>

record gen_call =
  c_task :: generation_task
  c_batchId :: string
  c_prompt :: string
  c_referenceImages :: "string list"
  c_resolution :: string
  c_apiKey :: string
  c_baseUrl :: "string option"
  c_styleId :: string

text \<open>
  The component state of \<^verbatim>\<open>App\<close> (the \<^verbatim>\<open>useState\<close> cells the handlers below touch),
  together with the two collections of the persistent store and the list of external
  generation calls in flight.
\<close>

record app_state =
  apiKey :: string
  baseUrl :: string
  isKeyModalOpen :: bool
  activeTab :: tab
  params :: generation_params
  prompt :: string
  selectedStyleId :: string
  referenceImages :: "string list"
  showConfig :: bool
  allPresets :: "style_preset list"
  tasks :: "generation_task list"
  gallery :: "generated_image list"
  lightboxState :: lightbox_state
  imageStore :: "generated_image list"
  presetStore :: "style_preset list"
  calls :: "gen_call list"

datatype gen_outcome = Resolved string | Rejected "string option"

datatype save_outcome = SaveOk | SaveRejected "string option"

section \<open>Strings\<close>

text \<open>
  \<^verbatim>\<open>String.prototype.trim\<close> removes white space at both ends; the white-space code
  units below 256 are TAB, LF, VT, FF, CR, SPACE and NBSP.
\<close>

definition is_whitespace :: "char \<Rightarrow> bool" where
  "is_whitespace c = (of_char c \<in> {9, 10, 11, 12, 13, 32, 160 :: nat})"

definition trim :: "string \<Rightarrow> string" where
  "trim s = rev (dropWhile is_whitespace (rev (dropWhile is_whitespace s)))"

text \<open>The decimal rendering of a non-negative integer (\<^verbatim>\<open>Number.prototype.toString\<close>).\<close>

definition digit_char :: "nat \<Rightarrow> char" where
  "digit_char d = (''0123456789'' ! d)"

function string_of_nat :: "nat \<Rightarrow> string" where
  "string_of_nat n =
     (if n < 10 then [digit_char n]
      else string_of_nat (n div 10) @ [digit_char (n mod 10)])"
  by pat_completeness auto
termination
  by (relation "measure (\<lambda>n. n)") auto

declare string_of_nat.simps [simp del]

text \<open>The template \<^verbatim>\<open>`${batchId}-${ratio}-${i}`\<close>.\<close>

definition task_id :: "string \<Rightarrow> string \<Rightarrow> nat \<Rightarrow> string" where
  "task_id batchId ratio i = batchId @ ''-'' @ ratio @ ''-'' @ string_of_nat i"

section \<open>Persistent store\<close>

text \<open>
  Modelled from the spec: \<^verbatim>\<open>services/storage\<close> (\<^verbatim>\<open>saveImage\<close>, \<^verbatim>\<open>getGallery\<close>,
  \<^verbatim>\<open>deleteImage\<close>, \<^verbatim>\<open>savePreset\<close>, \<^verbatim>\<open>getAllPresets\<close>, \<^verbatim>\<open>deletePreset\<close>) is not
  among the sources. Following section 4.1 of the specification, a collection is keyed by
  id; an upsert inserts the record or fully replaces the record with that id; a listing
  returns all records in a store-stable order; a delete removes the record if present.
  A rejected operation leaves the collection as it was.
\<close>

definition upsert :: "('a \<Rightarrow> string) \<Rightarrow> 'a \<Rightarrow> 'a list \<Rightarrow> 'a list" where
  "upsert key x xs =
     (if list_ex (\<lambda>y. key y = key x) xs
      then map (\<lambda>y. if key y = key x then x else y) xs
      else xs @ [x])"

definition saveImage :: "generated_image \<Rightarrow> generated_image list \<Rightarrow> generated_image list" where
  "saveImage img store = upsert i_id img store"

definition getGallery :: "generated_image list \<Rightarrow> generated_image list" where
  "getGallery store = store"

definition deleteImage :: "string \<Rightarrow> generated_image list \<Rightarrow> generated_image list" where
  "deleteImage k store = filter (\<lambda>x. i_id x \<noteq> k) store"

definition savePreset :: "style_preset \<Rightarrow> style_preset list \<Rightarrow> style_preset list" where
  "savePreset preset store = upsert p_id preset store"

definition getAllPresets :: "style_preset list \<Rightarrow> style_preset list" where
  "getAllPresets store = store"

definition deletePreset :: "string \<Rightarrow> style_preset list \<Rightarrow> style_preset list" where
  "deletePreset k store = filter (\<lambda>x. p_id x \<noteq> k) store"

section \<open>Grouping\<close>

text \<open>
  \<^verbatim>\<open>groupTasksByBatch\<close> (App.tsx, lines 509 to 523). The object \<^verbatim>\<open>groups\<close> is a map
  from batch key to the array collected so far and \<^verbatim>\<open>order\<close> the list of keys in the
  order they were created. A batch key is a decimal timestamp or \<^verbatim>\<open>'legacy'\<close>, never a
  property name that a plain object inherits, so the lookup \<^verbatim>\<open>groups[bid]\<close> is the
  map lookup.
\<close>

definition batch_key :: "generation_task \<Rightarrow> string" where
  "batch_key task =
     (case t_batchId task of
        None \<Rightarrow> ''legacy''
      | Some b \<Rightarrow> if b = [] then ''legacy'' else b)"

definition group_step ::
  "generation_task \<Rightarrow> (string \<rightharpoonup> generation_task list) \<times> string list
     \<Rightarrow> (string \<rightharpoonup> generation_task list) \<times> string list" where
  "group_step task acc =
     (let groups = fst acc; order = snd acc; bid = batch_key task in
      case groups bid of
        None \<Rightarrow> (groups(bid \<mapsto> [task]), order @ [bid])
      | Some g \<Rightarrow> (groups(bid \<mapsto> g @ [task]), order))"

definition groupTasksByBatch :: "generation_task list \<Rightarrow> generation_task list list" where
  "groupTasksByBatch ts =
     (let acc = fold group_step ts (Map.empty, []) in
      map (\<lambda>bid. case fst acc bid of Some g \<Rightarrow> g | None \<Rightarrow> []) (snd acc))"

section \<open>Orchestrator\<close>

text \<open>
  \<^verbatim>\<open>loadGallery\<close> (lines 183 to 186) reads the image collection and replaces the gallery
  list. It is applied where the code calls it.
\<close>

definition loadGallery :: "app_state \<Rightarrow> app_state" where
  "loadGallery st = st\<lparr>gallery := getGallery (imageStore st)\<rparr>"

subsection \<open>handleGenerate (lines 345 to 433)\<close>

text \<open>\<^verbatim>\<open>!retryPrompt\<close> is false exactly for a string that is present and not empty.\<close>

definition truthy :: "string option \<Rightarrow> bool" where
  "truthy s = (case s of None \<Rightarrow> False | Some x \<Rightarrow> x \<noteq> [])"

definition effectivePrompt :: "string option \<Rightarrow> app_state \<Rightarrow> string" where
  "effectivePrompt retryPrompt st = (case retryPrompt of None \<Rightarrow> prompt st | Some p \<Rightarrow> p)"

definition effectiveRefImages :: "string list option \<Rightarrow> app_state \<Rightarrow> string list" where
  "effectiveRefImages retryRefImages st =
     (case retryRefImages of None \<Rightarrow> referenceImages st | Some r \<Rightarrow> r)"

definition selected_style :: "app_state \<Rightarrow> style_preset option" where
  "selected_style st = find (\<lambda>s. p_id s = selectedStyleId st) (allPresets st)"

definition finalPrompt :: "string option \<Rightarrow> app_state \<Rightarrow> string" where
  "finalPrompt retryPrompt st =
     (case selected_style st of
        None \<Rightarrow> effectivePrompt retryPrompt st
      | Some style \<Rightarrow>
          if \<not> truthy retryPrompt \<and> p_id style \<noteq> ''none''
          then p_description style @ ''. '' @ effectivePrompt retryPrompt st
          else effectivePrompt retryPrompt st)"

definition finalRefImages :: "string list option \<Rightarrow> app_state \<Rightarrow> string list" where
  "finalRefImages retryRefImages st =
     effectiveRefImages retryRefImages st @
     (case selected_style st of
        None \<Rightarrow> []
      | Some style \<Rightarrow> (case p_referenceImages style of None \<Rightarrow> [] | Some r \<Rightarrow> r))"

definition new_task :: "string \<Rightarrow> string \<Rightarrow> string \<Rightarrow> nat \<Rightarrow> generation_task" where
  "new_task batchId fp ratio i =
     \<lparr>t_id = task_id batchId ratio i, t_batchId = Some batchId, t_status = Pending,
      t_aspectRatio = ratio, t_prompt = fp, t_placeholder = True,
      t_data = None, t_error = None\<rparr>"

text \<open>
  The two nested loops of lines 371 to 382, each \<^verbatim>\<open>push\<close> an append at the end of
  \<^verbatim>\<open>newTasks\<close>.
\<close>

definition newTasks :: "string \<Rightarrow> string \<Rightarrow> generation_params \<Rightarrow> generation_task list" where
  "newTasks batchId fp ps =
     fold (\<lambda>ratio acc. fold (\<lambda>i acc'. acc' @ [new_task batchId fp ratio i]) [0..<gp_count ps] acc)
       (gp_aspectRatios ps) []"

definition set_generating :: "string \<Rightarrow> generation_task \<Rightarrow> generation_task" where
  "set_generating k t = (if t_id t = k then t\<lparr>t_status := Generating\<rparr> else t)"

definition make_call ::
  "string \<Rightarrow> string \<Rightarrow> string list \<Rightarrow> app_state \<Rightarrow> generation_task \<Rightarrow> gen_call" where
  "make_call batchId fp refs st0 task =
     \<lparr>c_task = task, c_batchId = batchId, c_prompt = fp, c_referenceImages = refs,
      c_resolution = gp_resolution (params st0), c_apiKey = apiKey st0,
      c_baseUrl = (if baseUrl st0 = [] then None else Some (baseUrl st0)),
      c_styleId = selectedStyleId st0\<rparr>"

text \<open>
  The body of the dispatch loop (lines 386 to 427) up to the point where the call has been
  issued: first the status update by id (line 387), then the external call (lines 389 to
  396). \<^verbatim>\<open>st0\<close> is the state the handler was created in, from which the call takes its
  credentials and parameters.
\<close>

definition start_generating :: "generation_task \<Rightarrow> app_state \<Rightarrow> app_state" where
  "start_generating task st = st\<lparr>tasks := map (set_generating (t_id task)) (tasks st)\<rparr>"

definition issue_call ::
  "string \<Rightarrow> string \<Rightarrow> string list \<Rightarrow> app_state \<Rightarrow> generation_task \<Rightarrow> app_state \<Rightarrow> app_state" where
  "issue_call batchId fp refs st0 task st =
     st\<lparr>calls := calls st @ [make_call batchId fp refs st0 task]\<rparr>"

definition dispatch ::
  "string \<Rightarrow> string \<Rightarrow> string list \<Rightarrow> app_state \<Rightarrow> generation_task \<Rightarrow> app_state \<Rightarrow> app_state" where
  "dispatch batchId fp refs st0 task st =
     issue_call batchId fp refs st0 task (start_generating task st)"

text \<open>\<^verbatim>\<open>now\<close> is the value \<^verbatim>\<open>Date.now()\<close> returns at line 368.\<close>

definition handleGenerate ::
  "string option \<Rightarrow> string list option \<Rightarrow> nat \<Rightarrow> app_state \<Rightarrow> app_state" where
  "handleGenerate retryPrompt retryRefImages now st =
     (if apiKey st = [] then st\<lparr>isKeyModalOpen := True\<rparr>
      else if trim (effectivePrompt retryPrompt st) = []
              \<and> effectiveRefImages retryRefImages st = [] then st
      else
        let fp = finalPrompt retryPrompt st;
            refs = finalRefImages retryRefImages st;
            batchId = string_of_nat now;
            nts = newTasks batchId fp (params st);
            st1 = st\<lparr>activeTab := Create, showConfig := False\<rparr>;
            st2 = st1\<lparr>tasks := tasks st1 @ nts\<rparr>;
            st3 = fold (dispatch batchId fp refs st) nts st2
        in if \<not> truthy retryPrompt
           then st3\<lparr>prompt := [], referenceImages := []\<rparr>
           else st3)"

subsection \<open>Completion of a call (lines 397 to 426)\<close>

definition error_message :: "string option \<Rightarrow> string" where
  "error_message m =
     (case m of None \<Rightarrow> ''Generation failed''
      | Some s \<Rightarrow> if s = [] then ''Generation failed'' else s)"

definition generatedData :: "gen_call \<Rightarrow> string \<Rightarrow> nat \<Rightarrow> generated_image" where
  "generatedData c url now =
     \<lparr>i_id = t_id (c_task c), i_batchId = c_batchId c, i_url = url, i_prompt = c_prompt c,
      i_aspectRatio = t_aspectRatio (c_task c), i_resolution = c_resolution c,
      i_timestamp = now, i_styleId = c_styleId c,
      i_referenceImages = c_referenceImages c, i_isFavorite = None\<rparr>"

definition set_success :: "string \<Rightarrow> generated_image \<Rightarrow> generation_task \<Rightarrow> generation_task" where
  "set_success k d t = (if t_id t = k then t\<lparr>t_status := Success, t_data := Some d\<rparr> else t)"

definition set_error :: "string \<Rightarrow> string \<Rightarrow> generation_task \<Rightarrow> generation_task" where
  "set_error k m t = (if t_id t = k then t\<lparr>t_status := Error, t_error := Some m\<rparr> else t)"

definition on_rejected :: "gen_call \<Rightarrow> string option \<Rightarrow> app_state \<Rightarrow> app_state" where
  "on_rejected c m st =
     st\<lparr>tasks := map (set_error (t_id (c_task c)) (error_message m)) (tasks st)\<rparr>"

text \<open>
  The promise of the call settles once: the call leaves the list of calls in flight, and
  either the \<^verbatim>\<open>then\<close> callback runs to its end, or the \<^verbatim>\<open>catch\<close> callback runs, for a
  rejection of the call or of \<^verbatim>\<open>saveImage\<close> inside \<^verbatim>\<open>then\<close>. \<^verbatim>\<open>now\<close> is the value
  of \<^verbatim>\<open>Date.now()\<close> at line 405.
\<close>

definition settle :: "gen_call \<Rightarrow> gen_outcome \<Rightarrow> nat \<Rightarrow> save_outcome \<Rightarrow> app_state \<Rightarrow> app_state" where
  "settle c outcome now save st =
     (let st0 = st\<lparr>calls := remove1 c (calls st)\<rparr> in
      case outcome of
        Rejected m \<Rightarrow> on_rejected c m st0
      | Resolved url \<Rightarrow>
          (case save of
             SaveRejected m \<Rightarrow> on_rejected c m st0
           | SaveOk \<Rightarrow>
               let d = generatedData c url now;
                   st1 = st0\<lparr>imageStore := saveImage d (imageStore st0)\<rparr>;
                   st2 = st1\<lparr>tasks := map (set_success (t_id (c_task c)) d) (tasks st1)\<rparr>
               in loadGallery st2))"

subsection \<open>The other handlers that touch the task list\<close>

text \<open>\<^verbatim>\<open>handleDeleteTask\<close> (lines 443 to 445).\<close>

definition handleDeleteTask :: "string \<Rightarrow> app_state \<Rightarrow> app_state" where
  "handleDeleteTask k st = st\<lparr>tasks := filter (\<lambda>t. t_id t \<noteq> k) (tasks st)\<rparr>"

text \<open>
  \<^verbatim>\<open>handleRegenerateBatch\<close> (lines 456 to 465); \<^verbatim>\<open>batchTasks[0]\<close> is read after the
  test for the empty list.
\<close>

definition handleRegenerateBatch :: "generation_task list \<Rightarrow> nat \<Rightarrow> app_state \<Rightarrow> app_state" where
  "handleRegenerateBatch batchTasks now st =
     (case batchTasks of
        [] \<Rightarrow> st
      | first # _ \<Rightarrow>
          (case find (\<lambda>t. t_data t \<noteq> None) batchTasks of
             Some t \<Rightarrow>
               (case t_data t of
                  Some firstData \<Rightarrow>
                    handleGenerate (Some (i_prompt firstData))
                      (Some (i_referenceImages firstData)) now st
                | None \<Rightarrow> handleGenerate (Some (t_prompt first)) None now st)
           | None \<Rightarrow> handleGenerate (Some (t_prompt first)) None now st))"

text \<open>
  \<^verbatim>\<open>handleToggleFavorite\<close> (lines 325 to 343). \<^verbatim>\<open>!image.isFavorite\<close> is true for a
  missing flag. The handler suspends at \<^verbatim>\<open>await saveImage\<close>: \<^verbatim>\<open>st0\<close> is the state of
  the render that created the handler, and \<^verbatim>\<open>st\<close> the state in which the handler
  resumes, after the handlers that ran during the save. The updates of the gallery, of the
  tasks and of the lightbox list are functional updates of \<^verbatim>\<open>st\<close>; the test
  \<^verbatim>\<open>lightboxState.isOpen\<close> of line 337 reads the captured \<^verbatim>\<open>st0\<close>. When \<^verbatim>\<open>saveImage\<close>
  rejects, the \<^verbatim>\<open>await\<close> throws and no list is updated.
\<close>

definition updatedImage :: "generated_image \<Rightarrow> generated_image" where
  "updatedImage img = img\<lparr>i_isFavorite := Some (\<not> (i_isFavorite img = Some True))\<rparr>"

definition replace_image :: "generated_image \<Rightarrow> generated_image \<Rightarrow> generated_image" where
  "replace_image upd img = (if i_id img = i_id upd then upd else img)"

definition replace_task_data :: "generated_image \<Rightarrow> generation_task \<Rightarrow> generation_task" where
  "replace_task_data upd t =
     (case t_data t of
        None \<Rightarrow> t
      | Some d \<Rightarrow> if i_id d = i_id upd then t\<lparr>t_data := Some upd\<rparr> else t)"

definition handleToggleFavorite ::
  "generated_image \<Rightarrow> save_outcome \<Rightarrow> app_state \<Rightarrow> app_state \<Rightarrow> app_state" where
  "handleToggleFavorite img save st0 st =
     (case save of
        SaveRejected m \<Rightarrow> st
      | SaveOk \<Rightarrow>
          let upd = updatedImage img;
              st1 = st\<lparr>imageStore := saveImage upd (imageStore st)\<rparr>;
              st2 = st1\<lparr>gallery := map (replace_image upd) (gallery st1)\<rparr>;
              st3 = st2\<lparr>tasks := map (replace_task_data upd) (tasks st2)\<rparr>
          in if lb_isOpen (lightboxState st0)
             then st3\<lparr>lightboxState :=
                    (lightboxState st3)\<lparr>lb_images :=
                       map (replace_image upd) (lb_images (lightboxState st3))\<rparr>\<rparr>
             else st3)"

text \<open>
  \<^verbatim>\<open>openLightbox\<close> (lines 469 to 491). The list is the one passed, or else the gallery,
  its favourites, or the data of the successful tasks in reverse, by the active tab;
  \<^verbatim>\<open>activeTab\<close>, \<^verbatim>\<open>gallery\<close> and \<^verbatim>\<open>tasks\<close> are read from the state \<^verbatim>\<open>st0\<close> of the
  render that created the handler. \<^verbatim>\<open>findIndex\<close> gives the first position with the id
  of the image, and 0 stands in when there is none.
\<close>

definition lightbox_list :: "generated_image list option \<Rightarrow> app_state \<Rightarrow> generated_image list" where
  "lightbox_list sourceList st0 =
     (case sourceList of
        Some l \<Rightarrow> l
      | None \<Rightarrow>
          if activeTab st0 = Gallery then gallery st0
          else if activeTab st0 = Favorites
          then filter (\<lambda>img. i_isFavorite img = Some True) (gallery st0)
          else rev (List.map_filter t_data
                      (filter (\<lambda>t. t_status t = Success \<and> t_data t \<noteq> None) (tasks st0))))"

definition openLightbox ::
  "generated_image \<Rightarrow> generated_image list option \<Rightarrow> app_state \<Rightarrow> app_state \<Rightarrow> app_state" where
  "openLightbox img sourceList st0 st =
     (let list = lightbox_list sourceList st0;
          index = length (takeWhile (\<lambda>x. i_id x \<noteq> i_id img) list)
      in st\<lparr>lightboxState :=
             \<lparr>lb_isOpen = True, lb_images = list,
              lb_currentIndex = (if index < length list then index else 0)\<rparr>\<rparr>)"

section \<open>Preset registry\<close>

text \<open>
  The initialisation effect (lines 105 to 143). \<^verbatim>\<open>DEFAULT_PRESETS\<close> comes from
  \<^verbatim>\<open>constants.ts\<close>, which is not among the sources, and is a parameter here, as are the
  three values read from \<^verbatim>\<open>localStorage\<close> (\<^verbatim>\<open>savedParams\<close> is the parsed value, or
  \<^verbatim>\<open>None\<close> when the key is missing or does not parse).
\<close>

definition seed_presets :: "style_preset list \<Rightarrow> style_preset list \<Rightarrow> style_preset list" where
  "seed_presets defaults store =
     (let store1 = (case find (\<lambda>p. p_id p = ''none'') defaults of
                      Some defaultPresetDef \<Rightarrow> savePreset defaultPresetDef store
                    | None \<Rightarrow> store);
          currentPresets = getAllPresets store1;
          existingIds = set (map p_id currentPresets);
          missingDefaults = filter (\<lambda>p. p_id p \<notin> existingIds) defaults
      in fold savePreset missingDefaults store1)"

definition initialize ::
  "style_preset list \<Rightarrow> string option \<Rightarrow> string option \<Rightarrow> generation_params option
     \<Rightarrow> app_state \<Rightarrow> app_state" where
  "initialize defaults savedKey savedBaseUrl savedParams st =
     (let st1 = (case savedKey of
                   Some k \<Rightarrow> if k \<noteq> [] then st\<lparr>apiKey := k\<rparr> else st
                 | None \<Rightarrow> st);
          st2 = (case savedBaseUrl of
                   Some u \<Rightarrow> if u \<noteq> [] then st1\<lparr>baseUrl := u\<rparr> else st1
                 | None \<Rightarrow> st1);
          st3 = st2\<lparr>presetStore := seed_presets defaults (presetStore st2)\<rparr>;
          st4 = st3\<lparr>allPresets := getAllPresets (presetStore st3)\<rparr>;
          st5 = loadGallery st4
      in case savedParams of None \<Rightarrow> st5 | Some p \<Rightarrow> st5\<lparr>params := p\<rparr>)"

text \<open>The state the component starts in (lines 54 to 86), with an empty store.\<close>

definition initial_state :: app_state where
  "initial_state =
     \<lparr>apiKey = [], baseUrl = [], isKeyModalOpen = False, activeTab = Create,
      params = \<lparr>gp_aspectRatios = [''16:9''], gp_resolution = ''2K'', gp_count = 4\<rparr>,
      prompt = ''A giga peach, hand-drawn crayon style, rough texture, thick black outlines, big round eyes, cute simple face, solid vivid blue background'',
      selectedStyleId = ''none'', referenceImages = [], showConfig = False,
      allPresets = [], tasks = [], gallery = [],
      lightboxState = \<lparr>lb_isOpen = False, lb_images = [], lb_currentIndex = 0\<rparr>,
      imageStore = [], presetStore = [], calls = []\<rparr>"

section \<open>Events\<close>

text \<open>
  The handlers that call \<^verbatim>\<open>setTasks\<close>, as events: a submission, a retry, the
  completion of a call, the deletion of a task, the toggling of a favourite (with the
  state its handler captured).
\<close>

datatype event =
    Generate "string option" "string list option" nat
  | RegenerateBatch "generation_task list" nat
  | Settle gen_call gen_outcome nat save_outcome
  | DeleteTask string
  | ToggleFavorite generated_image save_outcome app_state

fun step :: "event \<Rightarrow> app_state \<Rightarrow> app_state" where
  "step (Generate retryPrompt retryRefImages now) st = handleGenerate retryPrompt retryRefImages now st"
| "step (RegenerateBatch batchTasks now) st = handleRegenerateBatch batchTasks now st"
| "step (Settle c outcome now save) st = settle c outcome now save st"
| "step (DeleteTask k) st = handleDeleteTask k st"
| "step (ToggleFavorite img save st0) st = handleToggleFavorite img save st0 st"

section \<open>Notions for the statements and proofs\<close>

text \<open>
  Both precondition tests of \<^verbatim>\<open>handleGenerate\<close> pass (lines 347 and 355).
\<close>

definition submits :: "string option \<Rightarrow> string list option \<Rightarrow> app_state \<Rightarrow> bool" where
  "submits retryPrompt retryRefImages st =
     (apiKey st \<noteq> [] \<and>
      \<not> (trim (effectivePrompt retryPrompt st) = [] \<and> effectiveRefImages retryRefImages st = []))"

text \<open>The effect of the status updates of a whole dispatch loop, for the ids \<^verbatim>\<open>S\<close>.\<close>

definition mark_generating :: "string set \<Rightarrow> generation_task \<Rightarrow> generation_task" where
  "mark_generating S t = (if t_id t \<in> S then t\<lparr>t_status := Generating\<rparr> else t)"

text \<open>
  The id of a task begins with its batch id and a dash, and the batch id has no dash (it is
  a decimal number). A task list is well formed when this holds for its tasks and their
  ids are pairwise distinct. A batch id is unused when no task of the list carries it.
\<close>

definition task_wf :: "generation_task \<Rightarrow> bool" where
  "task_wf t =
     (case t_batchId t of
        None \<Rightarrow> False
      | Some b \<Rightarrow> CHR ''-'' \<notin> set b \<and> prefix (b @ ''-'') (t_id t))"

definition ids_wf :: "generation_task list \<Rightarrow> bool" where
  "ids_wf ts = (distinct (map t_id ts) \<and> list_all task_wf ts)"

definition batch_unused :: "string \<Rightarrow> generation_task list \<Rightarrow> bool" where
  "batch_unused b ts = list_all (\<lambda>t. t_batchId t \<noteq> Some b) ts"

definition call_wf :: "gen_call \<Rightarrow> bool" where
  "call_wf c = (CHR ''-'' \<notin> set (c_batchId c) \<and> prefix (c_batchId c @ ''-'') (t_id (c_task c)))"

text \<open>
  A well-formed state: the task list is well formed; the calls in flight have pairwise
  distinct task ids, each beginning with the batch id of the call; and a listed task of a
  call in flight is \<^verbatim>\<open>generating\<close>.
\<close>

definition orchestrator_inv :: "app_state \<Rightarrow> bool" where
  "orchestrator_inv st =
     (ids_wf (tasks st)
      \<and> distinct (map (\<lambda>c. t_id (c_task c)) (calls st))
      \<and> list_all call_wf (calls st)
      \<and> list_all (\<lambda>c. list_all (\<lambda>t. t_id t = t_id (c_task c) \<longrightarrow> t_status t = Generating)
                       (tasks st)) (calls st))"

text \<open>
  The clock reading is carried by no listed task and by no call in flight.
\<close>

definition fresh_clock :: "nat \<Rightarrow> app_state \<Rightarrow> bool" where
  "fresh_clock now st =
     (batch_unused (string_of_nat now) (tasks st)
      \<and> list_all (\<lambda>c. c_batchId c \<noteq> string_of_nat now) (calls st))"

text \<open>
  What an event needs for the state to stay well formed: a batch is submitted at a fresh
  clock reading with pairwise distinct ratios, and a call that completes is in flight.
\<close>

fun event_ok :: "event \<Rightarrow> app_state \<Rightarrow> bool" where
  "event_ok (Generate retryPrompt retryRefImages now) st =
     (fresh_clock now st \<and> distinct (gp_aspectRatios (params st)))"
| "event_ok (RegenerateBatch batchTasks now) st =
     (fresh_clock now st \<and> distinct (gp_aspectRatios (params st)))"
| "event_ok (Settle c outcome now save) st = (c \<in> set (calls st))"
| "event_ok (DeleteTask k) st = True"
| "event_ok (ToggleFavorite img save st0) st = True"

text \<open>
  The steps of the status of one task: none, \<^verbatim>\<open>pending\<close> to \<^verbatim>\<open>generating\<close>, and
  \<^verbatim>\<open>generating\<close> to \<^verbatim>\<open>success\<close> or \<^verbatim>\<open>error\<close>. Between two states, every task that
  is in both lists (by id) takes such a step, and a task with a new id is
  \<^verbatim>\<open>generating\<close>.
\<close>

definition status_step :: "task_status \<Rightarrow> task_status \<Rightarrow> bool" where
  "status_step s s' =
     (s' = s \<or> (s = Pending \<and> s' = Generating) \<or> (s = Generating \<and> (s' = Success \<or> s' = Error)))"

definition transitions_ok :: "app_state \<Rightarrow> app_state \<Rightarrow> bool" where
  "transitions_ok st st' =
     (list_all (\<lambda>t. list_all (\<lambda>t'. t_id t' = t_id t \<longrightarrow> status_step (t_status t) (t_status t'))
                       (tasks st')) (tasks st)
      \<and> list_all (\<lambda>t'. t_id t' \<notin> set (map t_id (tasks st)) \<longrightarrow> t_status t' = Generating)
          (tasks st'))"

text \<open>The update of one task by the completion of a call.\<close>

definition settle_task ::
  "gen_call \<Rightarrow> gen_outcome \<Rightarrow> nat \<Rightarrow> save_outcome \<Rightarrow> generation_task \<Rightarrow> generation_task" where
  "settle_task c outcome now save =
     (case outcome of
        Rejected m \<Rightarrow> set_error (t_id (c_task c)) (error_message m)
      | Resolved url \<Rightarrow>
          (case save of
             SaveRejected m \<Rightarrow> set_error (t_id (c_task c)) (error_message m)
           | SaveOk \<Rightarrow> set_success (t_id (c_task c)) (generatedData c url now)))"

text \<open>The distinct elements of a list, in the order of their first occurrence.\<close>

fun first_seen :: "'a list \<Rightarrow> 'a list" where
  "first_seen [] = []"
| "first_seen (x # xs) = x # first_seen (filter (\<lambda>y. y \<noteq> x) xs)"

text \<open>
  What the loop of \<^verbatim>\<open>groupTasksByBatch\<close> has built after the tasks \<^verbatim>\<open>pre\<close>.
\<close>

definition group_inv ::
  "generation_task list \<Rightarrow> (string \<rightharpoonup> generation_task list) \<times> string list \<Rightarrow> bool" where
  "group_inv pre acc =
     (snd acc = first_seen (map batch_key pre) \<and>
      (\<forall>k. fst acc k = (if k \<in> set (map batch_key pre)
                         then Some (filter (\<lambda>t. batch_key t = k) pre) else None)))"

text \<open>The preset store after the first step of the seeding, the upsert of the sentinel.\<close>

definition sentinel_upserted :: "style_preset list \<Rightarrow> style_preset list \<Rightarrow> style_preset list" where
  "sentinel_upserted defaults store =
     (case find (\<lambda>p. p_id p = ''none'') defaults of
        Some d \<Rightarrow> savePreset d store
      | None \<Rightarrow> store)"

section \<open>Example data\<close>

text \<open>A task with a given id and batch id.\<close>

definition sample_task :: "string \<Rightarrow> string option \<Rightarrow> generation_task" where
  "sample_task k b =
     \<lparr>t_id = k, t_batchId = b, t_status = Generating, t_aspectRatio = ''1:1'',
      t_prompt = ''a cat'', t_placeholder = True, t_data = None, t_error = None\<rparr>"

text \<open>Presets: the sentinel, two built-in ones, and a user's edit of the first.\<close>

definition none_preset :: style_preset where
  "none_preset = \<lparr>p_id = ''none'', p_name = ''None'', p_description = [], p_icon = None,
     p_referenceImages = None\<rparr>"

definition sample_preset :: style_preset where
  "sample_preset = \<lparr>p_id = ''neon'', p_name = ''Neon Noir'', p_description = ''Neon Noir style'',
     p_icon = None, p_referenceImages = Some [''s1'']\<rparr>"

definition watercolor_preset :: style_preset where
  "watercolor_preset = \<lparr>p_id = ''watercolor'', p_name = ''Watercolor'',
     p_description = ''Soft watercolor'', p_icon = None, p_referenceImages = None\<rparr>"

definition edited_preset :: style_preset where
  "edited_preset = sample_preset\<lparr>p_description := ''my neon''\<rparr>"

text \<open>
  A state with a credential, the prompt \<^verbatim>\<open>a cat\<close>, one reference image and the preset
  \<^verbatim>\<open>neon\<close> selected, for two ratios and two images each; and the same for one image.
\<close>

definition sample_state :: app_state where
  "sample_state = initial_state
     \<lparr>apiKey := ''k'', prompt := ''a cat'', referenceImages := [''u1''],
      selectedStyleId := ''neon'', allPresets := [none_preset, sample_preset],
      params := \<lparr>gp_aspectRatios = [''1:1'', ''16:9''], gp_resolution = ''2K'', gp_count = 2\<rparr>\<rparr>"

definition single_state :: app_state where
  "single_state = sample_state
     \<lparr>params := \<lparr>gp_aspectRatios = [''1:1''], gp_resolution = ''2K'', gp_count = 1\<rparr>\<rparr>"

text \<open>
  The call that a submission in \<^verbatim>\<open>single_state\<close> at the clock reading 5 issues, the state
  after its success, and that state with the image open in the lightbox.
\<close>

definition sample_call :: gen_call where
  "sample_call =
     \<lparr>c_task = \<lparr>t_id = ''5-1:1-0'', t_batchId = Some ''5'', t_status = Pending,
                 t_aspectRatio = ''1:1'', t_prompt = ''Neon Noir style. a cat'',
                 t_placeholder = True, t_data = None, t_error = None\<rparr>,
      c_batchId = ''5'', c_prompt = ''Neon Noir style. a cat'',
      c_referenceImages = [''u1'', ''s1''], c_resolution = ''2K'', c_apiKey = ''k'',
      c_baseUrl = None, c_styleId = ''neon''\<rparr>"

definition sample_image :: generated_image where
  "sample_image = generatedData sample_call ''u'' 9"

definition done_state :: app_state where
  "done_state = settle sample_call (Resolved ''u'') 9 SaveOk (handleGenerate None None 5 single_state)"

definition gallery_state :: app_state where
  "gallery_state = openLightbox sample_image None done_state done_state"

text \<open>
  The state after a submission in \<^verbatim>\<open>single_state\<close> and a retry of its batch, both at the
  clock reading 5, and the call of the retry.
\<close>

definition collided_state :: app_state where
  "collided_state =
     handleRegenerateBatch (tasks (handleGenerate None None 5 single_state)) 5
       (handleGenerate None None 5 single_state)"

definition second_call :: gen_call where
  "second_call = sample_call\<lparr>c_referenceImages := [''s1'']\<rparr>"

text \<open>
  A submission with an empty prompt, one reference image and no preset: its call, and the
  state after its success and the selection of the preset \<^verbatim>\<open>neon\<close>.
\<close>

definition bare_state :: app_state where
  "bare_state = single_state\<lparr>prompt := [], selectedStyleId := ''none''\<rparr>"

definition bare_call :: gen_call where
  "bare_call =
     \<lparr>c_task = \<lparr>t_id = ''5-1:1-0'', t_batchId = Some ''5'', t_status = Pending,
                 t_aspectRatio = ''1:1'', t_prompt = [],
                 t_placeholder = True, t_data = None, t_error = None\<rparr>,
      c_batchId = ''5'', c_prompt = [],
      c_referenceImages = [''u1''], c_resolution = ''2K'', c_apiKey = ''k'',
      c_baseUrl = None, c_styleId = ''none''\<rparr>"

definition bare_done_state :: app_state where
  "bare_done_state =
     (settle bare_call (Resolved ''u'') 9 SaveOk (handleGenerate None None 5 bare_state))
     \<lparr>selectedStyleId := ''neon''\<rparr>"

section \<open>Decimal rendering and task ids\<close>

lemma digit_char_cases:
  "d < 10 \<Longrightarrow> digit_char d \<in> set ''0123456789''"
  unfolding digit_char_def by (rule nth_mem) simp

lemma digit_char_no_dash: "d < 10 \<Longrightarrow> digit_char d \<noteq> CHR ''-''"
  using digit_char_cases [of d] by auto

lemma digit_char_inj: "a < 10 \<Longrightarrow> b < 10 \<Longrightarrow> digit_char a = digit_char b \<Longrightarrow> a = b"
proof -
  assume a: "a < 10" and b: "b < 10" and e: "digit_char a = digit_char b"
  have d: "distinct ''0123456789''" by simp
  from a b e show "a = b"
    unfolding digit_char_def using d by (simp add: nth_eq_iff_index_eq)
qed

lemma string_of_nat_no_dash: "CHR ''-'' \<notin> set (string_of_nat n)"
proof (induction n rule: string_of_nat.induct)
  case (1 n)
  show ?case
  proof (cases "n < 10")
    case True
    then show ?thesis
      using digit_char_no_dash [of n] by (subst string_of_nat.simps) auto
  next
    case False
    have "n mod 10 < 10" by simp
    from digit_char_no_dash [OF this] 1 False show ?thesis
      by (subst string_of_nat.simps) auto
  qed
qed

lemma string_of_nat_not_Nil: "string_of_nat n \<noteq> []"
  by (subst string_of_nat.simps) simp

lemma string_of_nat_inj: "string_of_nat m = string_of_nat n \<Longrightarrow> m = n"
proof (induction m arbitrary: n rule: string_of_nat.induct)
  case (1 m)
  show ?case
  proof (cases "m < 10")
    case m: True
    show ?thesis
    proof (cases "n < 10")
      case True
      with m "1.prems" show ?thesis
        by (simp add: string_of_nat.simps [of m] string_of_nat.simps [of n] digit_char_inj)
    next
      case False
      with m "1.prems" string_of_nat_not_Nil [of "n div 10"] show ?thesis
        by (simp add: string_of_nat.simps [of m] string_of_nat.simps [of n])
    qed
  next
    case m: False
    show ?thesis
    proof (cases "n < 10")
      case True
      with m "1.prems" string_of_nat_not_Nil [of "m div 10"] show ?thesis
        by (simp add: string_of_nat.simps [of m] string_of_nat.simps [of n])
    next
      case False
      with m "1.prems" have e: "string_of_nat (m div 10) = string_of_nat (n div 10)"
        and d: "digit_char (m mod 10) = digit_char (n mod 10)"
        by (simp_all add: string_of_nat.simps [of m] string_of_nat.simps [of n])
      from "1.IH" [OF m e] have "m div 10 = n div 10" .
      moreover from d have "m mod 10 = n mod 10"
        by (intro digit_char_inj) simp_all
      ultimately show ?thesis
        by (metis div_mult_mod_eq)
    qed
  qed
qed

lemma split_first:
  "u @ d # x = v @ d # y \<Longrightarrow> d \<notin> set u \<Longrightarrow> d \<notin> set v \<Longrightarrow> u = v \<and> x = y"
proof (induction u arbitrary: v)
  case Nil
  then show ?case by (cases v) auto
next
  case (Cons a u)
  then show ?case by (cases v) auto
qed

lemma split_last:
  assumes "x @ d # u = y @ d # v" "d \<notin> set u" "d \<notin> set v"
  shows "x = y \<and> u = v"
proof -
  from assms(1) have "rev (x @ d # u) = rev (y @ d # v)" by simp
  then have "rev u @ d # rev x = rev v @ d # rev y" by simp
  from split_first [OF this] assms(2,3) show ?thesis by simp
qed

lemma task_id_inj:
  assumes "task_id b r i = task_id b r' i'"
  shows "r = r' \<and> i = i'"
proof -
  from assms have "r @ CHR ''-'' # string_of_nat i = r' @ CHR ''-'' # string_of_nat i'"
    by (simp add: task_id_def)
  from split_last [OF this string_of_nat_no_dash string_of_nat_no_dash]
  show ?thesis by (auto dest: string_of_nat_inj)
qed


section \<open>Creation and dispatch of a batch\<close>

lemma fold_push: "fold (\<lambda>i acc. acc @ [f i]) xs acc = acc @ map f xs"
  by (induction xs arbitrary: acc) simp_all

lemma fold_push_all: "fold (\<lambda>r acc. acc @ g r) rs acc = acc @ concat (map g rs)"
  by (induction rs arbitrary: acc) simp_all

lemma newTasks_concat:
  "newTasks b fp ps =
     concat (map (\<lambda>ratio. map (new_task b fp ratio) [0..<gp_count ps]) (gp_aspectRatios ps))"
  by (simp add: newTasks_def fold_push fold_push_all)

lemma length_concat_const: "length (concat (map (\<lambda>r. map (f r) ys) xs)) = length xs * length ys"
  by (induction xs) simp_all

lemma length_newTasks: "length (newTasks b fp ps) = length (gp_aspectRatios ps) * gp_count ps"
  by (simp add: newTasks_concat length_concat_const)

lemma concat_map_product:
  "concat (map (\<lambda>r. map (f r) ys) xs) = map (\<lambda>(r, i). f r i) (List.product xs ys)"
  by (induction xs) simp_all

lemma newTasks_ids:
  "map t_id (newTasks b fp ps) =
     concat (map (\<lambda>ratio. map (task_id b ratio) [0..<gp_count ps]) (gp_aspectRatios ps))"
  by (simp add: newTasks_concat map_concat comp_def new_task_def)

lemma distinct_newTasks_ids:
  assumes "distinct (gp_aspectRatios ps)"
  shows "distinct (map t_id (newTasks b fp ps))"
proof -
  have "inj_on (\<lambda>(r, i). task_id b r i) (set (List.product (gp_aspectRatios ps) [0..<gp_count ps]))"
    by (rule inj_onI) (auto dest: task_id_inj)
  moreover have "distinct (List.product (gp_aspectRatios ps) [0..<gp_count ps])"
    using assms by (simp add: distinct_product)
  ultimately show ?thesis
    by (simp add: newTasks_ids concat_map_product distinct_map)
qed

lemma mark_set_generating:
  "mark_generating S (set_generating k t) = mark_generating (insert k S) t"
  by (simp add: mark_generating_def set_generating_def)

lemma mark_empty: "mark_generating {} t = t"
  by (simp add: mark_generating_def)

lemma fold_dispatch:
  "fold (dispatch b fp refs st0) nts st =
     st\<lparr>tasks := map (mark_generating (set (map t_id nts))) (tasks st),
        calls := calls st @ map (make_call b fp refs st0) nts\<rparr>"
proof (induction nts arbitrary: st)
  case Nil
  have "map (mark_generating {}) (tasks st) = tasks st"
    by (simp add: mark_empty cong: map_cong)
  then show ?case by simp
next
  case (Cons t nts)
  have "fold (dispatch b fp refs st0) (t # nts) st =
          fold (dispatch b fp refs st0) nts (dispatch b fp refs st0 t st)"
    by simp
  also have "\<dots> = (dispatch b fp refs st0 t st)
      \<lparr>tasks := map (mark_generating (set (map t_id nts))) (tasks (dispatch b fp refs st0 t st)),
       calls := calls (dispatch b fp refs st0 t st) @ map (make_call b fp refs st0) nts\<rparr>"
    by (rule Cons.IH)
  also have "\<dots> = st\<lparr>tasks := map (mark_generating (set (map t_id (t # nts)))) (tasks st),
        calls := calls st @ map (make_call b fp refs st0) (t # nts)\<rparr>"
    unfolding dispatch_def issue_call_def start_generating_def
    by (simp add: mark_set_generating comp_def)
  finally show ?case .
qed

section \<open>Grouping by batch\<close>

lemma first_seen_snoc:
  "first_seen (xs @ [x]) = (if x \<in> set xs then first_seen xs else first_seen xs @ [x])"
  by (induction xs rule: first_seen.induct) auto

lemma set_first_seen: "set (first_seen xs) = set xs"
  by (induction xs rule: first_seen.induct) auto

lemma distinct_first_seen: "distinct (first_seen xs)"
  by (induction xs rule: first_seen.induct) (auto simp: set_first_seen)

lemma filter_key_absent: "k \<notin> f ` set xs \<Longrightarrow> filter (\<lambda>u. f u = k) xs = []"
  by (induction xs) auto

lemma group_inv_step:
  assumes "group_inv pre acc"
  shows "group_inv (pre @ [t]) (group_step t acc)"
proof (cases "batch_key t \<in> set (map batch_key pre)")
  case True
  with assms show ?thesis
    by (auto simp: group_inv_def group_step_def Let_def first_seen_snoc)
next
  case False
  then have "filter (\<lambda>u. batch_key u = batch_key t) pre = []"
    by (simp add: filter_key_absent)
  with False assms show ?thesis
    by (auto simp: group_inv_def group_step_def Let_def first_seen_snoc)
qed

lemma group_inv_fold:
  "group_inv pre acc \<Longrightarrow> group_inv (pre @ ts) (fold group_step ts acc)"
proof (induction ts arbitrary: pre acc)
  case Nil
  then show ?case by simp
next
  case (Cons t ts)
  from Cons.prems have "group_inv (pre @ [t]) (group_step t acc)"
    by (rule group_inv_step)
  from Cons.IH [OF this] show ?case by simp
qed

lemma group_inv_empty: "group_inv [] (Map.empty, [])"
  by (simp add: group_inv_def)

lemma groupTasksByBatch_filter:
  "groupTasksByBatch ts =
     map (\<lambda>k. filter (\<lambda>t. batch_key t = k) ts) (first_seen (map batch_key ts))"
proof -
  have "group_inv ts (fold group_step ts (Map.empty, []))"
    using group_inv_fold [OF group_inv_empty, of ts] by simp
  then have "snd (fold group_step ts (Map.empty, [])) = first_seen (map batch_key ts)"
    and "\<And>k. k \<in> set (first_seen (map batch_key ts)) \<Longrightarrow>
           fst (fold group_step ts (Map.empty, [])) k = Some (filter (\<lambda>t. batch_key t = k) ts)"
    by (simp_all add: group_inv_def set_first_seen)
  then show ?thesis
    by (simp add: groupTasksByBatch_def Let_def)
qed

lemma groupTasksByBatch_append_new:
  assumes "batch_key t \<notin> set (map batch_key ts)"
  shows "groupTasksByBatch (ts @ [t]) = groupTasksByBatch ts @ [[t]]"
proof -
  have "filter (\<lambda>u. batch_key u = batch_key t) ts = []"
    using assms by (simp add: filter_key_absent)
  moreover have "\<forall>k \<in> set (first_seen (map batch_key ts)). batch_key t \<noteq> k"
    using assms by (auto simp: set_first_seen)
  ultimately show ?thesis
    using assms by (simp add: groupTasksByBatch_filter first_seen_snoc)
qed

text \<open>
  Claim C7. \<^verbatim>\<open>groupTasksByBatch\<close> is a function of the task list alone. Its groups are
  the tasks of each batch key, a task without a batch id having the key \<^verbatim>\<open>'legacy'\<close>;
  the groups come in the order in which their keys first occur in the list; each group
  keeps the order of the list; and appending a task whose key does not occur in the list
  adds one group at the end and changes no other group.
\<close>

theorem groupTasksByBatch_stable_partition:
  "groupTasksByBatch ts =
     map (\<lambda>k. filter (\<lambda>u. batch_key u = k) ts) (first_seen (map batch_key ts))
   \<and> (t_batchId t = None \<longrightarrow> batch_key t = ''legacy'')
   \<and> (batch_key t \<notin> set (map batch_key ts) \<longrightarrow>
        groupTasksByBatch (ts @ [t]) = groupTasksByBatch ts @ [[t]])"
proof (intro conjI impI)
  show "groupTasksByBatch ts =
     map (\<lambda>k. filter (\<lambda>u. batch_key u = k) ts) (first_seen (map batch_key ts))"
    by (rule groupTasksByBatch_filter)
  show "batch_key t = ''legacy''" if "t_batchId t = None"
    using that by (simp add: batch_key_def)
  show "groupTasksByBatch (ts @ [t]) = groupTasksByBatch ts @ [[t]]"
    if "batch_key t \<notin> set (map batch_key ts)"
    using that by (rule groupTasksByBatch_append_new)
qed

theorem groupTasksByBatch_stable_partition_witness:
  "t_batchId (sample_task ''c'' None) = None
   \<and> batch_key (sample_task ''c'' None) \<notin>
       set (map batch_key [sample_task ''a'' (Some ''5''), sample_task ''b'' (Some ''6''),
                           sample_task ''d'' (Some ''5'')])
   \<and> groupTasksByBatch ([sample_task ''a'' (Some ''5''), sample_task ''b'' (Some ''6''),
                          sample_task ''d'' (Some ''5'')] @ [sample_task ''c'' None])
       = [[sample_task ''a'' (Some ''5''), sample_task ''d'' (Some ''5'')],
          [sample_task ''b'' (Some ''6'')],
          [sample_task ''c'' None]]"
  using groupTasksByBatch_stable_partition
    [of "[sample_task ''a'' (Some ''5''), sample_task ''b'' (Some ''6''),
          sample_task ''d'' (Some ''5'')]" "sample_task ''c'' None"]
  by (simp add: batch_key_def sample_task_def)

section \<open>Preconditions and resolution of a submission\<close>

lemma trim_empty_iff: "trim s = [] \<longleftrightarrow> list_all is_whitespace s"
proof -
  have "trim s = [] \<longleftrightarrow> (\<forall>c \<in> set (dropWhile is_whitespace s). is_whitespace c)"
    by (simp add: trim_def dropWhile_eq_Nil_conv)
  also have "\<dots> \<longleftrightarrow> dropWhile is_whitespace s = []"
    by (metis hd_dropWhile hd_in_set empty_iff list.set(1))
  also have "\<dots> \<longleftrightarrow> list_all is_whitespace s"
    by (simp add: dropWhile_eq_Nil_conv list_all_iff)
  finally show ?thesis .
qed

lemma handleGenerate_submits:
  assumes "submits rp rr st"
  shows "handleGenerate rp rr now st =
     (let nts = newTasks (string_of_nat now) (finalPrompt rp st) (params st);
          st3 = st\<lparr>activeTab := Create, showConfig := False,
                   tasks := map (mark_generating (set (map t_id nts))) (tasks st @ nts),
                   calls := calls st @
                     map (make_call (string_of_nat now) (finalPrompt rp st) (finalRefImages rr st) st) nts\<rparr>
      in if \<not> truthy rp then st3\<lparr>prompt := [], referenceImages := []\<rparr> else st3)"
proof -
  from assms have a: "apiKey st \<noteq> []"
    and b: "\<not> (trim (effectivePrompt rp st) = [] \<and> effectiveRefImages rr st = [])"
    by (simp_all add: submits_def)
  show ?thesis
    unfolding handleGenerate_def Let_def fold_dispatch
    using a b by (simp only: if_False) simp
qed

lemma handleGenerate_tasks:
  assumes "submits rp rr st"
  shows "tasks (handleGenerate rp rr now st) =
     map (mark_generating (set (map t_id (newTasks (string_of_nat now) (finalPrompt rp st) (params st)))))
       (tasks st @ newTasks (string_of_nat now) (finalPrompt rp st) (params st))"
  by (simp add: handleGenerate_submits [OF assms] Let_def)

lemma handleGenerate_calls:
  assumes "submits rp rr st"
  shows "calls (handleGenerate rp rr now st) =
     calls st @ map (make_call (string_of_nat now) (finalPrompt rp st) (finalRefImages rr st) st)
       (newTasks (string_of_nat now) (finalPrompt rp st) (params st))"
  by (simp add: handleGenerate_submits [OF assms] Let_def)

lemma handleGenerate_not_submits:
  assumes "\<not> submits rp rr st"
  shows "tasks (handleGenerate rp rr now st) = tasks st"
    and "calls (handleGenerate rp rr now st) = calls st"
    and "imageStore (handleGenerate rp rr now st) = imageStore st"
  using assms by (auto simp: handleGenerate_def submits_def)

lemma t_id_mark [simp]: "t_id (mark_generating S t) = t_id t"
  by (simp add: mark_generating_def)

lemma t_batchId_mark [simp]: "t_batchId (mark_generating S t) = t_batchId t"
  by (simp add: mark_generating_def)

lemmas eval_defs =
  handleGenerate_def trim_def is_whitespace_def effectivePrompt_def effectiveRefImages_def
  selected_style_def finalPrompt_def finalRefImages_def truthy_def newTasks_def new_task_def
  task_id_def string_of_nat.simps digit_char_def dispatch_def issue_call_def
  start_generating_def set_generating_def make_call_def
  sample_state_def single_state_def initial_state_def none_preset_def sample_preset_def
  Let_def submits_def upt_rec handleRegenerateBatch_def

lemma newTasks_member:
  "t \<in> set (newTasks b fp ps) \<Longrightarrow> \<exists>r i. t = new_task b fp r i"
  by (auto simp: newTasks_concat)

lemma task_wf_new_task: "task_wf (new_task (string_of_nat n) fp r i)"
  by (simp add: task_wf_def new_task_def task_id_def string_of_nat_no_dash)

lemma task_wf_mark [simp]: "task_wf (mark_generating S t) = task_wf t"
  by (simp add: task_wf_def mark_generating_def split: option.splits)

lemma prefixed_id_differs:
  assumes "prefix (b' @ ''-'') k" "CHR ''-'' \<notin> set b'" "CHR ''-'' \<notin> set b" "b' \<noteq> b"
  shows "k \<noteq> task_id b r i"
proof
  assume e: "k = task_id b r i"
  from assms(1) obtain rest where "k = b' @ CHR ''-'' # rest"
    by (auto simp: prefix_def)
  with e have "b' @ CHR ''-'' # rest = b @ CHR ''-'' # (r @ ''-'' @ string_of_nat i)"
    by (simp add: task_id_def)
  from split_first [OF this assms(2,3)] assms(4) show False by simp
qed

lemma task_wf_fresh:
  assumes "task_wf t" "t_batchId t \<noteq> Some b" "CHR ''-'' \<notin> set b"
  shows "t_id t \<noteq> task_id b r i"
proof -
  from assms(1) obtain b' where b': "t_batchId t = Some b'" "CHR ''-'' \<notin> set b'"
    "prefix (b' @ ''-'') (t_id t)"
    by (auto simp: task_wf_def split: option.splits)
  with assms(2) have "b' \<noteq> b" by simp
  from prefixed_id_differs [OF b'(3) b'(2) assms(3) this] show ?thesis .
qed

lemma old_ids_not_new:
  assumes "list_all task_wf ts" "batch_unused (string_of_nat n) ts"
  shows "set (map t_id ts) \<inter> set (map t_id (newTasks (string_of_nat n) fp ps)) = {}"
proof -
  have "t_id t \<noteq> t_id u" if "t \<in> set ts" "u \<in> set (newTasks (string_of_nat n) fp ps)" for t u
  proof -
    from that(2) obtain r i where "u = new_task (string_of_nat n) fp r i"
      by (auto dest: newTasks_member)
    then have u: "t_id u = task_id (string_of_nat n) r i"
      by (simp add: new_task_def)
    from assms that(1) have "task_wf t" "t_batchId t \<noteq> Some (string_of_nat n)"
      by (simp_all add: list_all_iff batch_unused_def)
    from task_wf_fresh [OF this string_of_nat_no_dash] u show ?thesis by simp
  qed
  then show ?thesis by auto
qed

lemma map_t_id_mark: "map t_id (map (mark_generating S) ts) = map t_id ts"
  by simp

lemma handleGenerate_ids:
  assumes "submits rp rr st"
  shows "map t_id (tasks (handleGenerate rp rr now st)) =
     map t_id (tasks st) @
     concat (map (\<lambda>ratio. map (task_id (string_of_nat now) ratio) [0..<gp_count (params st)])
               (gp_aspectRatios (params st)))"
  by (simp add: handleGenerate_tasks [OF assms] newTasks_ids comp_def)

lemma handleGenerate_new_part:
  assumes "submits rp rr st"
  shows "drop (length (tasks st)) (tasks (handleGenerate rp rr now st)) =
     map (mark_generating (set (map t_id (newTasks (string_of_nat now) (finalPrompt rp st) (params st)))))
       (newTasks (string_of_nat now) (finalPrompt rp st) (params st))"
  by (simp add: handleGenerate_tasks [OF assms])

lemma handleGenerate_ids_wf:
  assumes "submits rp rr st" "distinct (gp_aspectRatios (params st))"
    "ids_wf (tasks st)" "batch_unused (string_of_nat now) (tasks st)"
  shows "ids_wf (tasks (handleGenerate rp rr now st))"
proof -
  let ?nts = "newTasks (string_of_nat now) (finalPrompt rp st) (params st)"
  have ids: "map t_id (tasks (handleGenerate rp rr now st)) = map t_id (tasks st) @ map t_id ?nts"
    by (simp add: handleGenerate_tasks [OF assms(1)] comp_def)
  have "distinct (map t_id ?nts)"
    using assms(2) by (rule distinct_newTasks_ids)
  moreover have "set (map t_id (tasks st)) \<inter> set (map t_id ?nts) = {}"
    using assms(3,4) by (intro old_ids_not_new) (simp_all add: ids_wf_def)
  ultimately have "distinct (map t_id (tasks (handleGenerate rp rr now st)))"
    using assms(3) unfolding ids by (simp add: ids_wf_def)
  moreover have "list_all task_wf ?nts"
    by (auto simp: list_all_iff dest!: newTasks_member intro: task_wf_new_task)
  then have "list_all task_wf (tasks (handleGenerate rp rr now st))"
    using assms(3) by (auto simp: handleGenerate_tasks [OF assms(1)] ids_wf_def list_all_iff)
  ultimately show ?thesis by (simp add: ids_wf_def)
qed

text \<open>
  Claim C1, as amended. A submission that passes the two precondition tests appends
  exactly \<open>|aspectRatios| * count\<close> tasks, with the ids \<^verbatim>\<open>{batchId}-{ratio}-{i}\<close> in the
  order of the ratios and, for each ratio, of \<open>i\<close> ascending from 0, where \<^verbatim>\<open>batchId\<close>
  is the decimal rendering of the clock reading; every new task carries that batch id.
  The new ids are pairwise distinct when the selected ratios are; and the ids of the whole
  list are pairwise distinct when, in addition, the list was well formed before (its ids
  distinct, each beginning with its task's batch id and a dash) and no task in it
  carries the new batch id. Well-formedness is then kept.
\<close>

theorem handleGenerate_creates_batch:
  assumes "submits rp rr st"
  shows "map t_id (tasks (handleGenerate rp rr now st)) =
           map t_id (tasks st) @
           concat (map (\<lambda>ratio. map (task_id (string_of_nat now) ratio) [0..<gp_count (params st)])
                     (gp_aspectRatios (params st)))
       \<and> length (tasks (handleGenerate rp rr now st)) =
           length (tasks st) + length (gp_aspectRatios (params st)) * gp_count (params st)
       \<and> list_all (\<lambda>t. t_batchId t = Some (string_of_nat now))
           (drop (length (tasks st)) (tasks (handleGenerate rp rr now st)))
       \<and> (distinct (gp_aspectRatios (params st)) \<longrightarrow>
            distinct (map t_id (drop (length (tasks st)) (tasks (handleGenerate rp rr now st)))))
       \<and> (distinct (gp_aspectRatios (params st)) \<and> ids_wf (tasks st)
            \<and> batch_unused (string_of_nat now) (tasks st) \<longrightarrow>
            distinct (map t_id (tasks (handleGenerate rp rr now st)))
            \<and> ids_wf (tasks (handleGenerate rp rr now st)))"
proof (intro conjI impI)
  show "map t_id (tasks (handleGenerate rp rr now st)) =
           map t_id (tasks st) @
           concat (map (\<lambda>ratio. map (task_id (string_of_nat now) ratio) [0..<gp_count (params st)])
                     (gp_aspectRatios (params st)))"
    using assms by (rule handleGenerate_ids)
  show "length (tasks (handleGenerate rp rr now st)) =
           length (tasks st) + length (gp_aspectRatios (params st)) * gp_count (params st)"
    by (simp add: handleGenerate_tasks [OF assms] length_newTasks)
  show "list_all (\<lambda>t. t_batchId t = Some (string_of_nat now))
           (drop (length (tasks st)) (tasks (handleGenerate rp rr now st)))"
    unfolding handleGenerate_new_part [OF assms]
    by (auto simp: list_all_iff new_task_def dest!: newTasks_member)
  show "distinct (map t_id (drop (length (tasks st)) (tasks (handleGenerate rp rr now st))))"
    if "distinct (gp_aspectRatios (params st))"
    unfolding handleGenerate_new_part [OF assms] map_t_id_mark
    using that by (rule distinct_newTasks_ids)
  show "ids_wf (tasks (handleGenerate rp rr now st))"
    if "distinct (gp_aspectRatios (params st)) \<and> ids_wf (tasks st)
          \<and> batch_unused (string_of_nat now) (tasks st)"
    using assms that by (simp add: handleGenerate_ids_wf)
  then show "distinct (map t_id (tasks (handleGenerate rp rr now st)))"
    if "distinct (gp_aspectRatios (params st)) \<and> ids_wf (tasks st)
          \<and> batch_unused (string_of_nat now) (tasks st)"
    using that by (simp add: ids_wf_def)
qed

theorem handleGenerate_creates_batch_witness:
  "submits None None sample_state
   \<and> distinct (gp_aspectRatios (params sample_state))
   \<and> ids_wf (tasks sample_state)
   \<and> batch_unused (string_of_nat 5) (tasks sample_state)
   \<and> map t_id (tasks (handleGenerate None None 5 sample_state)) =
       [''5-1:1-0'', ''5-1:1-1'', ''5-16:9-0'', ''5-16:9-1'']
   \<and> length (tasks (handleGenerate None None 5 sample_state)) = 4
   \<and> distinct (map t_id (tasks (handleGenerate None None 5 sample_state)))"
proof -
  have s: "submits None None sample_state"
    by (simp add: eval_defs)
  have p: "gp_aspectRatios (params sample_state) = [''1:1'', ''16:9'']"
    "gp_count (params sample_state) = 2" "tasks sample_state = []"
    by (simp_all add: sample_state_def initial_state_def)
  from handleGenerate_creates_batch [OF s, of 5] s show ?thesis
    by (simp add: p ids_wf_def batch_unused_def task_id_def string_of_nat.simps digit_char_def upt_rec)
qed

text \<open>
  The claim as stated fails: a batch regenerated at the clock reading at which it was
  submitted gets the ids of the first batch again.
\<close>

theorem handleGenerate_same_instant_counterexample:
  "\<not> distinct (map t_id (tasks
      (handleRegenerateBatch (tasks (handleGenerate None None 5 single_state)) 5
         (handleGenerate None None 5 single_state))))"
  by (simp add: eval_defs)

text \<open>
  Claim C5. Without a credential \<^verbatim>\<open>handleGenerate\<close> only opens the key dialog: no
  task is created and no call is issued. With a credential, a prompt that is empty or all
  white space together with an empty list of reference images leaves the state as it is.
  In every other case the batch of \<open>|aspectRatios| * count\<close> tasks is created.
\<close>

theorem handleGenerate_preconditions:
  "(apiKey st = [] \<longrightarrow>
      handleGenerate rp rr now st = st\<lparr>isKeyModalOpen := True\<rparr>
      \<and> tasks (handleGenerate rp rr now st) = tasks st
      \<and> calls (handleGenerate rp rr now st) = calls st)
   \<and> (apiKey st \<noteq> [] \<and> list_all is_whitespace (effectivePrompt rp st)
        \<and> effectiveRefImages rr st = [] \<longrightarrow>
      handleGenerate rp rr now st = st)
   \<and> (apiKey st \<noteq> []
        \<and> \<not> (list_all is_whitespace (effectivePrompt rp st) \<and> effectiveRefImages rr st = []) \<longrightarrow>
      length (tasks (handleGenerate rp rr now st)) =
        length (tasks st) + length (gp_aspectRatios (params st)) * gp_count (params st))"
proof (intro conjI impI)
  assume "apiKey st = []"
  then show "handleGenerate rp rr now st = st\<lparr>isKeyModalOpen := True\<rparr>"
    "tasks (handleGenerate rp rr now st) = tasks st"
    "calls (handleGenerate rp rr now st) = calls st"
    by (simp_all add: handleGenerate_def)
next
  assume "apiKey st \<noteq> [] \<and> list_all is_whitespace (effectivePrompt rp st)
        \<and> effectiveRefImages rr st = []"
  then show "handleGenerate rp rr now st = st"
    by (simp add: handleGenerate_def trim_empty_iff)
next
  assume "apiKey st \<noteq> []
        \<and> \<not> (list_all is_whitespace (effectivePrompt rp st) \<and> effectiveRefImages rr st = [])"
  then have "submits rp rr st"
    by (simp add: submits_def trim_empty_iff)
  then show "length (tasks (handleGenerate rp rr now st)) =
        length (tasks st) + length (gp_aspectRatios (params st)) * gp_count (params st)"
    by (simp add: handleGenerate_tasks length_newTasks)
qed

theorem handleGenerate_preconditions_witness:
  "apiKey initial_state = []
   \<and> handleGenerate None None 5 initial_state = initial_state\<lparr>isKeyModalOpen := True\<rparr>
   \<and> tasks (handleGenerate None None 5 initial_state) = []
   \<and> apiKey (sample_state\<lparr>prompt := '' '', referenceImages := []\<rparr>) \<noteq> []
   \<and> list_all is_whitespace (effectivePrompt None (sample_state\<lparr>prompt := '' '', referenceImages := []\<rparr>))
   \<and> handleGenerate None None 5 (sample_state\<lparr>prompt := '' '', referenceImages := []\<rparr>)
        = sample_state\<lparr>prompt := '' '', referenceImages := []\<rparr>
   \<and> apiKey sample_state \<noteq> []
   \<and> \<not> list_all is_whitespace (effectivePrompt None sample_state)
   \<and> length (tasks (handleGenerate None None 5 sample_state)) = 4"
  using handleGenerate_preconditions [of initial_state None None 5]
    handleGenerate_preconditions [of "sample_state\<lparr>prompt := '' '', referenceImages := []\<rparr>" None None 5]
    handleGenerate_preconditions [of sample_state None None 5]
  by (simp add: sample_state_def initial_state_def effectivePrompt_def effectiveRefImages_def
        is_whitespace_def)

text \<open>
  Claim C2. In a submission that is not a retry, with a selected preset other than
  \<^verbatim>\<open>'none'\<close>, every call issued carries the prompt \<^verbatim>\<open>{description}. {prompt}\<close> and
  the user's reference images followed by the preset's; the calls issued before are kept,
  and one call is issued per task.
\<close>

theorem handleGenerate_style_resolution:
  assumes "submits None None st" "selected_style st = Some style" "p_id style \<noteq> ''none''"
  shows "list_all (\<lambda>c. c_prompt c = p_description style @ ''. '' @ prompt st
                     \<and> c_referenceImages c =
                         referenceImages st @
                         (case p_referenceImages style of None \<Rightarrow> [] | Some r \<Rightarrow> r))
           (drop (length (calls st)) (calls (handleGenerate None None now st)))
       \<and> take (length (calls st)) (calls (handleGenerate None None now st)) = calls st
       \<and> length (calls (handleGenerate None None now st)) =
           length (calls st) + length (gp_aspectRatios (params st)) * gp_count (params st)"
proof -
  have fp: "finalPrompt None st = p_description style @ ''. '' @ prompt st"
    using assms(2,3) by (simp add: finalPrompt_def truthy_def effectivePrompt_def)
  have refs: "finalRefImages None st =
      referenceImages st @ (case p_referenceImages style of None \<Rightarrow> [] | Some r \<Rightarrow> r)"
    using assms(2) by (simp add: finalRefImages_def effectiveRefImages_def)
  show ?thesis
    by (simp add: handleGenerate_calls [OF assms(1)] fp refs list_all_iff make_call_def
          length_newTasks)
qed

theorem handleGenerate_style_resolution_witness:
  "submits None None sample_state
   \<and> selected_style sample_state = Some sample_preset
   \<and> p_id sample_preset \<noteq> ''none''
   \<and> map c_prompt (calls (handleGenerate None None 5 sample_state)) =
       [''Neon Noir style. a cat'', ''Neon Noir style. a cat'',
        ''Neon Noir style. a cat'', ''Neon Noir style. a cat'']
   \<and> map c_referenceImages (calls (handleGenerate None None 5 sample_state)) =
       [[''u1'', ''s1''], [''u1'', ''s1''], [''u1'', ''s1''], [''u1'', ''s1'']]"
proof -
  have s: "submits None None sample_state"
    and t: "selected_style sample_state = Some sample_preset"
    and n: "p_id sample_preset \<noteq> ''none''"
    by (simp_all add: eval_defs)
  have e: "calls (handleGenerate None None 5 sample_state) = 
     drop (length (calls sample_state)) (calls (handleGenerate None None 5 sample_state))"
    by (simp add: sample_state_def initial_state_def)
  have l: "length (calls (handleGenerate None None 5 sample_state)) = 4"
    using handleGenerate_style_resolution [OF s t n, of 5]
    by (simp add: sample_state_def initial_state_def)
  have "list_all (\<lambda>c. c_prompt c = ''Neon Noir style. a cat'' \<and> c_referenceImages c = [''u1'', ''s1''])
      (calls (handleGenerate None None 5 sample_state))"
    using handleGenerate_style_resolution [OF s t n, of 5] e
    by (simp add: sample_state_def initial_state_def sample_preset_def)
  with l s t n show ?thesis
    by (auto simp: list_all_iff length_Suc_conv numeral_eq_Suc)
qed

section \<open>Completion of a call and deletion of a task\<close>

lemmas eval_defs2 = eval_defs settle_def on_rejected_def set_error_def set_success_def
  error_message_def generatedData_def saveImage_def upsert_def loadGallery_def getGallery_def
  sample_call_def handleDeleteTask_def

lemma map_set_error_absent:
  "k \<notin> set (map t_id ts) \<Longrightarrow> map (set_error k m) ts = ts"
  by (induction ts) (auto simp: set_error_def)

lemma map_set_success_absent:
  "k \<notin> set (map t_id ts) \<Longrightarrow> map (set_success k d) ts = ts"
  by (induction ts) (auto simp: set_success_def)

lemma settle_tasks:
  "tasks (settle c outcome now save st) =
     (case outcome of
        Rejected m \<Rightarrow> map (set_error (t_id (c_task c)) (error_message m)) (tasks st)
      | Resolved url \<Rightarrow>
          (case save of
             SaveRejected m \<Rightarrow> map (set_error (t_id (c_task c)) (error_message m)) (tasks st)
           | SaveOk \<Rightarrow> map (set_success (t_id (c_task c)) (generatedData c url now)) (tasks st)))"
  by (simp add: settle_def on_rejected_def loadGallery_def Let_def
        split: gen_outcome.splits save_outcome.splits)

lemma settle_calls: "calls (settle c outcome now save st) = remove1 c (calls st)"
  by (simp add: settle_def on_rejected_def loadGallery_def Let_def
        split: gen_outcome.splits save_outcome.splits)

text \<open>
  Claim C10. When the call resolves and \<^verbatim>\<open>saveImage\<close> then rejects, the state changes
  as for a rejected call: the tasks with the id of the call get the status \<^verbatim>\<open>error\<close>
  and the message of the rejection, or \<^verbatim>\<open>Generation failed\<close> when it has none; the
  gallery and the store stay as they were. The gallery is reloaded on the successful path
  only.
\<close>

theorem settle_save_rejected:
  "settle c (Resolved url) now (SaveRejected m) st =
     st\<lparr>calls := remove1 c (calls st),
        tasks := map (set_error (t_id (c_task c)) (error_message m)) (tasks st)\<rparr>
   \<and> list_all (\<lambda>t. t_id t = t_id (c_task c) \<longrightarrow>
                  t_status t = Error \<and> t_error t = Some (error_message m))
       (tasks (settle c (Resolved url) now (SaveRejected m) st))
   \<and> error_message m =
       (case m of None \<Rightarrow> ''Generation failed''
        | Some s \<Rightarrow> if s = [] then ''Generation failed'' else s)
   \<and> gallery (settle c (Resolved url) now (SaveRejected m) st) = gallery st
   \<and> imageStore (settle c (Resolved url) now (SaveRejected m) st) = imageStore st
   \<and> settle c (Resolved url) now (SaveRejected m) st = settle c (Rejected m) now save st
   \<and> gallery (settle c (Resolved url) now SaveOk st) =
       saveImage (generatedData c url now) (imageStore st)"
  by (auto simp: settle_def on_rejected_def set_error_def error_message_def list_all_iff Let_def
        loadGallery_def getGallery_def)

theorem settle_save_rejected_witness:
  "map t_status (tasks (settle sample_call (Resolved ''u'') 9 (SaveRejected (Some ''quota''))
       (handleGenerate None None 5 single_state))) = [Error]
   \<and> map t_error (tasks (settle sample_call (Resolved ''u'') 9 (SaveRejected (Some ''quota''))
       (handleGenerate None None 5 single_state))) = [Some ''quota'']
   \<and> gallery (settle sample_call (Resolved ''u'') 9 (SaveRejected (Some ''quota''))
       (handleGenerate None None 5 single_state)) = []"
  using settle_save_rejected [of sample_call "''u''" 9 "Some ''quota''"
      "handleGenerate None None 5 single_state" SaveOk]
  by (simp add: eval_defs2)

text \<open>
  Claim C9. \<^verbatim>\<open>handleDeleteTask\<close> changes the task list only (not the store), no task with
  the id remains, and a completion of a call, successful or not, whose task id is not in
  the list leaves the list as it is.
\<close>

theorem deleted_task_not_resurrected:
  "handleDeleteTask k st = st\<lparr>tasks := filter (\<lambda>t. t_id t \<noteq> k) (tasks st)\<rparr>
   \<and> imageStore (handleDeleteTask k st) = imageStore st
   \<and> presetStore (handleDeleteTask k st) = presetStore st
   \<and> k \<notin> set (map t_id (tasks (handleDeleteTask k st)))
   \<and> (t_id (c_task c) = k \<longrightarrow>
        tasks (settle c outcome now save (handleDeleteTask k st)) = tasks (handleDeleteTask k st))
   \<and> (t_id (c_task c) \<notin> set (map t_id (tasks st')) \<longrightarrow>
        tasks (settle c outcome now save st') = tasks st')"
proof -
  have a: "k \<notin> set (map t_id (tasks (handleDeleteTask k st)))"
    by (auto simp: handleDeleteTask_def)
  have b: "tasks (settle c outcome now save s) = tasks s"
    if "t_id (c_task c) \<notin> set (map t_id (tasks s))" for s
    using that
    by (simp add: settle_tasks map_set_error_absent map_set_success_absent
          split: gen_outcome.splits save_outcome.splits)
  from a b [of "handleDeleteTask k st"] b [of st'] show ?thesis
    by (auto simp: handleDeleteTask_def)
qed

theorem deleted_task_not_resurrected_witness:
  "t_id (c_task sample_call) = ''5-1:1-0''
   \<and> map t_id (tasks (handleGenerate None None 5 single_state)) = [''5-1:1-0'']
   \<and> tasks (handleDeleteTask ''5-1:1-0'' (handleGenerate None None 5 single_state)) = []
   \<and> tasks (settle sample_call (Resolved ''u'') 9 SaveOk
        (handleDeleteTask ''5-1:1-0'' (handleGenerate None None 5 single_state))) = []
   \<and> tasks (settle sample_call (Rejected None) 9 SaveOk
        (handleDeleteTask ''5-1:1-0'' (handleGenerate None None 5 single_state))) = []
   \<and> imageStore (handleDeleteTask ''5-1:1-0'' (handleGenerate None None 5 single_state)) = []"
proof -
  have t: "tasks (handleDeleteTask ''5-1:1-0'' (handleGenerate None None 5 single_state)) = []"
    and i: "map t_id (tasks (handleGenerate None None 5 single_state)) = [''5-1:1-0'']"
    and c: "t_id (c_task sample_call) = ''5-1:1-0''"
    and s: "imageStore (handleGenerate None None 5 single_state) = []"
    by (simp_all add: eval_defs2)
  from deleted_task_not_resurrected
      [of "''5-1:1-0''" "handleGenerate None None 5 single_state" sample_call "Resolved ''u''" 9 SaveOk]
    deleted_task_not_resurrected
      [of "''5-1:1-0''" "handleGenerate None None 5 single_state" sample_call "Rejected None" 9 SaveOk]
    t i c s
  show ?thesis by simp
qed

section \<open>Favourites\<close>

lemma upsert_mem: "x \<in> set (upsert key x xs)"
  by (auto simp: upsert_def list_ex_iff)

lemma upsert_same_key: "y \<in> set (upsert key x xs) \<Longrightarrow> key y = key x \<Longrightarrow> y = x"
  by (auto simp: upsert_def list_ex_iff split: if_splits)

lemma upsert_other_key:
  "key y \<noteq> key x \<Longrightarrow> y \<in> set (upsert key x xs) \<longleftrightarrow> y \<in> set xs"
  by (auto simp: upsert_def list_ex_iff)

lemma handleToggleFavorite_ok:
  "handleToggleFavorite img SaveOk st0 st =
     st\<lparr>imageStore := saveImage (updatedImage img) (imageStore st),
        gallery := map (replace_image (updatedImage img)) (gallery st),
        tasks := map (replace_task_data (updatedImage img)) (tasks st),
        lightboxState :=
          (if lb_isOpen (lightboxState st0)
           then (lightboxState st)\<lparr>lb_images :=
                  map (replace_image (updatedImage img)) (lb_images (lightboxState st))\<rparr>
           else lightboxState st)\<rparr>"
  by (simp add: handleToggleFavorite_def Let_def)

lemma i_id_updatedImage [simp]: "i_id (updatedImage img) = i_id img"
  by (simp add: updatedImage_def)

text \<open>
  What the handler does reach when \<^verbatim>\<open>saveImage\<close> succeeds: the record with the flag
  negated is stored, and it replaces every gallery entry with the id and the data of every
  task whose data has the id. The lightbox list is updated when the lightbox was open in
  the captured state, and left as it is otherwise.
\<close>

lemma handleToggleFavorite_lists:
  "updatedImage img = img\<lparr>i_isFavorite := Some (\<not> (i_isFavorite img = Some True))\<rparr>
   \<and> updatedImage img \<in> set (imageStore (handleToggleFavorite img SaveOk st0 st))
   \<and> list_all (\<lambda>x. i_id x = i_id img \<longrightarrow> x = updatedImage img)
       (imageStore (handleToggleFavorite img SaveOk st0 st))
   \<and> gallery (handleToggleFavorite img SaveOk st0 st) =
       map (replace_image (updatedImage img)) (gallery st)
   \<and> list_all (\<lambda>x. i_id x = i_id img \<longrightarrow> x = updatedImage img)
       (gallery (handleToggleFavorite img SaveOk st0 st))
   \<and> tasks (handleToggleFavorite img SaveOk st0 st) =
       map (replace_task_data (updatedImage img)) (tasks st)
   \<and> list_all (\<lambda>t. case t_data t of None \<Rightarrow> True
                    | Some d \<Rightarrow> i_id d = i_id img \<longrightarrow> d = updatedImage img)
       (tasks (handleToggleFavorite img SaveOk st0 st))
   \<and> (lb_isOpen (lightboxState st0) \<longrightarrow>
        lb_images (lightboxState (handleToggleFavorite img SaveOk st0 st)) =
          map (replace_image (updatedImage img)) (lb_images (lightboxState st))
        \<and> list_all (\<lambda>x. i_id x = i_id img \<longrightarrow> x = updatedImage img)
            (lb_images (lightboxState (handleToggleFavorite img SaveOk st0 st))))
   \<and> (\<not> lb_isOpen (lightboxState st0) \<longrightarrow>
        lightboxState (handleToggleFavorite img SaveOk st0 st) = lightboxState st)"
proof -
  have a: "list_all (\<lambda>x. i_id x = i_id img \<longrightarrow> x = updatedImage img)
      (map (replace_image (updatedImage img)) xs)" for xs
    by (auto simp: list_all_iff replace_image_def)
  have b: "list_all (\<lambda>t. case t_data t of None \<Rightarrow> True
                    | Some d \<Rightarrow> i_id d = i_id img \<longrightarrow> d = updatedImage img)
      (map (replace_task_data (updatedImage img)) ts)" for ts
    by (auto simp: list_all_iff replace_task_data_def split: option.splits)
  have c: "list_all (\<lambda>x. i_id x = i_id img \<longrightarrow> x = updatedImage img)
       (saveImage (updatedImage img) xs)" for xs
    using upsert_same_key [of _ i_id "updatedImage img" xs]
    by (auto simp: list_all_iff saveImage_def)
  have d: "updatedImage img \<in> set (saveImage (updatedImage img) xs)" for xs
    by (simp add: saveImage_def upsert_mem)
  show ?thesis
    unfolding handleToggleFavorite_ok
    using a b c d by (simp add: updatedImage_def)
qed

lemmas eval_defs3 = eval_defs2 handleToggleFavorite_def updatedImage_def replace_image_def
  replace_task_data_def sample_image_def done_state_def gallery_state_def
  openLightbox_def lightbox_list_def

text \<open>
  Claim C6 fails on the code. The favourite of an image is toggled while the lightbox is
  closed, and the image is opened in the lightbox while \<^verbatim>\<open>saveImage\<close> is pending: the
  lightbox list is built from the tasks, with the flag not yet set. When the handler
  resumes, the store, the gallery and the task show the flag set, and the test of line 337
  reads the captured state, in which the lightbox was closed: the open lightbox keeps the
  copy with the flag not set.
\<close>

theorem handleToggleFavorite_stale_lightbox:
  "lb_isOpen (lightboxState done_state) = False
   \<and> map i_isFavorite (gallery done_state) = [None]
   \<and> lightboxState (openLightbox sample_image None done_state done_state) =
       \<lparr>lb_isOpen = True, lb_images = [sample_image], lb_currentIndex = 0\<rparr>
   \<and> map i_isFavorite (imageStore (handleToggleFavorite sample_image SaveOk done_state
        (openLightbox sample_image None done_state done_state))) = [Some True]
   \<and> map i_isFavorite (gallery (handleToggleFavorite sample_image SaveOk done_state
        (openLightbox sample_image None done_state done_state))) = [Some True]
   \<and> map (map_option i_isFavorite \<circ> t_data) (tasks (handleToggleFavorite sample_image SaveOk
        done_state (openLightbox sample_image None done_state done_state))) = [Some (Some True)]
   \<and> lb_isOpen (lightboxState (handleToggleFavorite sample_image SaveOk done_state
        (openLightbox sample_image None done_state done_state))) = True
   \<and> map i_isFavorite (lb_images (lightboxState (handleToggleFavorite sample_image SaveOk
        done_state (openLightbox sample_image None done_state done_state)))) = [None]"
  by (simp add: eval_defs3)

section \<open>Seeding of the presets\<close>

lemma list_ex_key: "list_ex (\<lambda>y. key y = k) xs \<longleftrightarrow> k \<in> set (map key xs)"
  by (induction xs) auto

lemma keys_upsert: "set (map key (upsert key x xs)) = insert (key x) (set (map key xs))"
  by (auto simp: upsert_def list_ex_iff)

lemma keys_fold_upsert:
  "set (map key (fold (upsert key) ps xs)) = set (map key xs) \<union> set (map key ps)"
proof (induction ps arbitrary: xs)
  case Nil
  then show ?case by simp
next
  case (Cons p ps)
  have "set (map key (fold (upsert key) (p # ps) xs)) =
      set (map key (fold (upsert key) ps (upsert key p xs)))"
    by simp
  also have "\<dots> = set (map key (upsert key p xs)) \<union> set (map key ps)"
    by (rule Cons.IH)
  also have "\<dots> = set (map key xs) \<union> set (map key (p # ps))"
    unfolding keys_upsert by auto
  finally show ?case .
qed

lemma fold_upsert_keeps:
  "y \<in> set xs \<Longrightarrow> key y \<notin> set (map key ps) \<Longrightarrow> y \<in> set (fold (upsert key) ps xs)"
proof (induction ps arbitrary: xs)
  case Nil
  then show ?case by simp
next
  case (Cons p ps)
  from Cons.prems have "key y \<noteq> key p" "key y \<notin> set (map key ps)" by auto
  moreover from this(1) Cons.prems(1) have "y \<in> set (upsert key p xs)"
    by (simp add: upsert_other_key)
  ultimately show ?case
    by (simp add: Cons.IH)
qed

lemma fold_upsert_origin:
  "q \<in> set (fold (upsert key) ps xs) \<Longrightarrow> q \<in> set xs \<or> q \<in> set ps"
proof (induction ps arbitrary: xs)
  case Nil
  then show ?case by simp
next
  case (Cons p ps)
  from Cons.prems have "q \<in> set (fold (upsert key) ps (upsert key p xs))" by simp
  from Cons.IH [OF this] show ?case
  proof
    assume q: "q \<in> set (upsert key p xs)"
    show ?thesis
    proof (cases "key q = key p")
      case True
      with q have "q = p" by (rule upsert_same_key)
      then show ?thesis by simp
    next
      case False
      with q show ?thesis by (simp add: upsert_other_key)
    qed
  next
    assume "q \<in> set ps"
    then show ?thesis by simp
  qed
qed

lemma fold_upsert_seeds:
  "distinct (map key ps) \<Longrightarrow> p \<in> set ps \<Longrightarrow> p \<in> set (fold (upsert key) ps xs)"
proof (induction ps arbitrary: xs)
  case Nil
  then show ?case by simp
next
  case (Cons a ps)
  show ?case
  proof (cases "p = a")
    case True
    have "a \<in> set (upsert key a xs)" by (rule upsert_mem)
    moreover from Cons.prems(1) have "key a \<notin> set (map key ps)" by simp
    ultimately show ?thesis
      using True by (simp add: fold_upsert_keeps)
  next
    case False
    with Cons.prems have "distinct (map key ps)" "p \<in> set ps" by auto
    then show ?thesis by (simp add: Cons.IH)
  qed
qed

lemma fold_upsert_append:
  "distinct (map key ps) \<Longrightarrow> set (map key ps) \<inter> set (map key xs) = {} \<Longrightarrow>
     fold (upsert key) ps xs = xs @ ps"
proof (induction ps arbitrary: xs)
  case Nil
  then show ?case by simp
next
  case (Cons p ps)
  from Cons.prems(2) have "key p \<notin> set (map key xs)" by auto
  then have u: "upsert key p xs = xs @ [p]"
    unfolding upsert_def list_ex_key by simp
  from Cons.prems have "distinct (map key ps)"
    "set (map key ps) \<inter> set (map key (xs @ [p])) = {}" by auto
  from Cons.IH [OF this] u show ?case by simp
qed

lemma seed_presets_eq:
  "seed_presets defaults store =
     fold (upsert p_id)
       (filter (\<lambda>p. p_id p \<notin> set (map p_id (sentinel_upserted defaults store))) defaults)
       (sentinel_upserted defaults store)"
proof -
  have "savePreset = upsert p_id"
    by (intro ext) (simp add: savePreset_def)
  then show ?thesis
    by (simp add: seed_presets_def sentinel_upserted_def getAllPresets_def Let_def)
qed

lemma find_sentinel:
  "find (\<lambda>p. p_id p = ''none'') defaults = None \<longleftrightarrow> ''none'' \<notin> set (map p_id defaults)"
proof -
  have "find (\<lambda>p. p_id p = ''none'') defaults = None
      \<longleftrightarrow> \<not> list_ex (\<lambda>p. p_id p = ''none'') defaults"
    by (auto simp: find_None_iff list_ex_iff)
  then show ?thesis
    unfolding list_ex_key .
qed

lemma keys_sentinel_upserted:
  "set (map p_id (sentinel_upserted defaults store)) =
     set (map p_id store) \<union> (set (map p_id defaults) \<inter> {''none''})"
proof (cases "find (\<lambda>p. p_id p = ''none'') defaults")
  case None
  then have "''none'' \<notin> set (map p_id defaults)"
    using find_sentinel [of defaults] by blast
  then have "set (map p_id defaults) \<inter> {''none''} = {}" by blast
  with None show ?thesis
    by (simp add: sentinel_upserted_def)
next
  case (Some d)
  then have d: "p_id d = ''none''" "d \<in> set defaults"
    by (auto simp: find_Some_iff)
  then have "''none'' \<in> set (map p_id defaults)"
    by (metis image_eqI set_map)
  then have "set (map p_id defaults) \<inter> {''none''} = {''none''}" by blast
  moreover have "set (map p_id (sentinel_upserted defaults store)) =
      insert ''none'' (set (map p_id store))"
    unfolding sentinel_upserted_def Some option.case savePreset_def keys_upsert d(1) ..
  ultimately show ?thesis by blast
qed

lemma missing_keys:
  "set (map p_id (filter (\<lambda>p. p_id p \<notin> set (map p_id xs)) defaults)) \<inter> set (map p_id xs) = {}"
  by auto

lemma seed_presets_keeps:
  assumes "y \<in> set (sentinel_upserted defaults store)"
  shows "y \<in> set (seed_presets defaults store)"
proof -
  let ?s1 = "sentinel_upserted defaults store"
  from assms have "p_id y \<in> set (map p_id ?s1)" by simp
  then have "p_id y \<notin> set (map p_id (filter (\<lambda>p. p_id p \<notin> set (map p_id ?s1)) defaults))"
    using missing_keys [of ?s1 defaults] by blast
  with assms show ?thesis
    unfolding seed_presets_eq by (rule fold_upsert_keeps)
qed

lemma seed_presets_origin:
  assumes "q \<in> set (seed_presets defaults store)"
  shows "q \<in> set (sentinel_upserted defaults store) \<or>
         (q \<in> set defaults \<and> p_id q \<notin> set (map p_id (sentinel_upserted defaults store)))"
  using fold_upsert_origin [OF assms [unfolded seed_presets_eq]] by auto

lemma sentinel_upserted_other:
  assumes "p_id y \<noteq> ''none''"
  shows "y \<in> set (sentinel_upserted defaults store) \<longleftrightarrow> y \<in> set store"
proof (cases "find (\<lambda>p. p_id p = ''none'') defaults")
  case None
  then show ?thesis by (simp add: sentinel_upserted_def)
next
  case (Some d)
  then have "p_id d = ''none''" by (auto simp: find_Some_iff)
  with assms have "p_id y \<noteq> p_id d" by simp
  then show ?thesis
    using Some by (simp add: sentinel_upserted_def savePreset_def upsert_other_key)
qed

lemma seed_presets_sentinel:
  assumes "find (\<lambda>p. p_id p = ''none'') defaults = Some d"
  shows "d \<in> set (seed_presets defaults store)"
    and "q \<in> set (seed_presets defaults store) \<Longrightarrow> p_id q = ''none'' \<Longrightarrow> q = d"
proof -
  from assms have d: "p_id d = ''none''" by (auto simp: find_Some_iff)
  have s1: "sentinel_upserted defaults store = upsert p_id d store"
    using assms by (simp add: sentinel_upserted_def savePreset_def)
  have "d \<in> set (sentinel_upserted defaults store)"
    unfolding s1 by (rule upsert_mem)
  then show "d \<in> set (seed_presets defaults store)"
    by (rule seed_presets_keeps)
  then have k: "''none'' \<in> set (map p_id (sentinel_upserted defaults store))"
    using d \<open>d \<in> set (sentinel_upserted defaults store)\<close> by (metis image_eqI set_map)
  show "q = d" if "q \<in> set (seed_presets defaults store)" "p_id q = ''none''"
  proof -
    from seed_presets_origin [OF that(1)] k that(2)
    have "q \<in> set (upsert p_id d store)" by (auto simp: s1)
    moreover from that(2) d have "p_id q = p_id d" by simp
    ultimately show ?thesis by (rule upsert_same_key)
  qed
qed

lemma seed_presets_keys:
  "set (map p_id (seed_presets defaults store)) = set (map p_id store) \<union> set (map p_id defaults)"
  unfolding seed_presets_eq keys_fold_upsert keys_sentinel_upserted by auto

lemma seed_presets_append:
  assumes "distinct (map p_id defaults)"
  shows "seed_presets defaults store =
     sentinel_upserted defaults store @
     filter (\<lambda>p. p_id p \<notin> set (map p_id (sentinel_upserted defaults store))) defaults"
  unfolding seed_presets_eq
  using assms missing_keys [of "sentinel_upserted defaults store" defaults]
  by (intro fold_upsert_append) (simp_all add: distinct_map_filter)

lemma seed_presets_seeds:
  assumes "distinct (map p_id defaults)" "p \<in> set defaults" "p_id p \<notin> set (map p_id store)"
  shows "p \<in> set (seed_presets defaults store)"
proof (cases "p_id p = ''none''")
  case True
  with assms(2) obtain d where d: "find (\<lambda>p. p_id p = ''none'') defaults = Some d"
    by (cases "find (\<lambda>p. p_id p = ''none'') defaults") (auto simp: find_None_iff)
  then have "p_id d = ''none''" "d \<in> set defaults"
    by (auto simp: find_Some_iff in_set_conv_nth)
  with True assms(1,2) have "d = p"
    by (metis distinct_map inj_onD)
  with seed_presets_sentinel(1) [OF d] show ?thesis by simp
next
  case False
  with assms(3) have "p_id p \<notin> set (map p_id (sentinel_upserted defaults store))"
    unfolding keys_sentinel_upserted by auto
  with assms(2) show ?thesis
    unfolding seed_presets_append [OF assms(1)] by simp
qed

lemma initialize_presets:
  "presetStore (initialize defaults k b ps st) = seed_presets defaults (presetStore st)"
  "allPresets (initialize defaults k b ps st) = seed_presets defaults (presetStore st)"
  by (simp_all add: initialize_def Let_def loadGallery_def getAllPresets_def split: option.splits)

text \<open>
  Claim C8. The initialisation upserts the \<^verbatim>\<open>'none'\<close> preset of the built-in defaults, so
  that it is the only stored preset with that id; it keeps every stored preset with
  another id, and adds no second version of one; the ids stored afterwards are those
  stored before and those of the defaults, every stored record being a stored one or a
  default; with pairwise distinct default ids, every default whose id was not stored is
  stored, appended in the order of the defaults after the records already there. When the
  defaults contain the \<^verbatim>\<open>'none'\<close> preset it exists afterwards. The preset list of the
  component is the store's content.
\<close>

theorem seed_presets_registry:
  "(find (\<lambda>p. p_id p = ''none'') defaults = Some d \<longrightarrow>
      d \<in> set (seed_presets defaults store)
      \<and> list_all (\<lambda>q. p_id q = ''none'' \<longrightarrow> q = d) (seed_presets defaults store))
   \<and> list_all (\<lambda>p. p_id p \<noteq> ''none'' \<longrightarrow> p \<in> set (seed_presets defaults store)) store
   \<and> list_all (\<lambda>q. p_id q \<noteq> ''none'' \<and> p_id q \<in> set (map p_id store) \<longrightarrow> q \<in> set store)
       (seed_presets defaults store)
   \<and> list_all (\<lambda>q. q \<in> set store \<or> q \<in> set defaults) (seed_presets defaults store)
   \<and> set (map p_id (seed_presets defaults store)) = set (map p_id store) \<union> set (map p_id defaults)
   \<and> (distinct (map p_id defaults) \<longrightarrow>
        list_all (\<lambda>p. p_id p \<notin> set (map p_id store) \<longrightarrow> p \<in> set (seed_presets defaults store))
          defaults
        \<and> seed_presets defaults store =
            sentinel_upserted defaults store @
            filter (\<lambda>p. p_id p \<notin> set (map p_id (sentinel_upserted defaults store))) defaults)
   \<and> (''none'' \<in> set (map p_id defaults) \<longrightarrow>
        ''none'' \<in> set (map p_id (seed_presets defaults store)))
   \<and> presetStore (initialize defaults k b ps st) = seed_presets defaults (presetStore st)
   \<and> allPresets (initialize defaults k b ps st) = seed_presets defaults (presetStore st)"
proof (intro conjI impI)
  assume d: "find (\<lambda>p. p_id p = ''none'') defaults = Some d"
  show "d \<in> set (seed_presets defaults store)"
    using d by (rule seed_presets_sentinel(1))
  show "list_all (\<lambda>q. p_id q = ''none'' \<longrightarrow> q = d) (seed_presets defaults store)"
    using seed_presets_sentinel(2) [OF d] by (auto simp: list_all_iff)
next
  show "list_all (\<lambda>p. p_id p \<noteq> ''none'' \<longrightarrow> p \<in> set (seed_presets defaults store)) store"
    by (auto simp: list_all_iff sentinel_upserted_other intro!: seed_presets_keeps)
next
  show "list_all (\<lambda>q. p_id q \<noteq> ''none'' \<and> p_id q \<in> set (map p_id store) \<longrightarrow> q \<in> set store)
       (seed_presets defaults store)"
    unfolding list_all_iff
  proof (intro ballI impI)
    fix q
    assume q: "q \<in> set (seed_presets defaults store)"
      and k: "p_id q \<noteq> ''none'' \<and> p_id q \<in> set (map p_id store)"
    then have "p_id q \<in> set (map p_id (sentinel_upserted defaults store))"
      unfolding keys_sentinel_upserted by simp
    with seed_presets_origin [OF q] have "q \<in> set (sentinel_upserted defaults store)" by blast
    with k show "q \<in> set store" by (simp add: sentinel_upserted_other)
  qed
next
  show "list_all (\<lambda>q. q \<in> set store \<or> q \<in> set defaults) (seed_presets defaults store)"
    unfolding list_all_iff
  proof
    fix q
    assume q: "q \<in> set (seed_presets defaults store)"
    show "q \<in> set store \<or> q \<in> set defaults"
    proof (cases "find (\<lambda>p. p_id p = ''none'') defaults")
      case None
      with seed_presets_origin [OF q] show ?thesis
        by (auto simp: sentinel_upserted_def)
    next
      case (Some d)
      then have dd: "d \<in> set defaults" by (auto simp: find_Some_iff in_set_conv_nth)
      show ?thesis
      proof (cases "p_id q = ''none''")
        case True
        with seed_presets_sentinel(2) [OF Some q] dd show ?thesis by simp
      next
        case False
        with seed_presets_origin [OF q] show ?thesis
          by (auto simp: sentinel_upserted_other)
      qed
    qed
  qed
next
  show "set (map p_id (seed_presets defaults store)) = set (map p_id store) \<union> set (map p_id defaults)"
    by (rule seed_presets_keys)
next
  assume "distinct (map p_id defaults)"
  then show "list_all (\<lambda>p. p_id p \<notin> set (map p_id store) \<longrightarrow> p \<in> set (seed_presets defaults store))
          defaults"
    by (auto simp: list_all_iff intro: seed_presets_seeds)
next
  assume "distinct (map p_id defaults)"
  then show "seed_presets defaults store =
            sentinel_upserted defaults store @
            filter (\<lambda>p. p_id p \<notin> set (map p_id (sentinel_upserted defaults store))) defaults"
    by (rule seed_presets_append)
next
  assume "''none'' \<in> set (map p_id defaults)"
  then show "''none'' \<in> set (map p_id (seed_presets defaults store))"
    unfolding seed_presets_keys by simp
next
  show "presetStore (initialize defaults k b ps st) = seed_presets defaults (presetStore st)"
    "allPresets (initialize defaults k b ps st) = seed_presets defaults (presetStore st)"
    by (rule initialize_presets)+
qed

lemmas eval_defs4 = seed_presets_def sentinel_upserted_def savePreset_def getAllPresets_def
  upsert_def none_preset_def sample_preset_def edited_preset_def watercolor_preset_def Let_def

theorem seed_presets_registry_witness:
  "find (\<lambda>p. p_id p = ''none'') [none_preset, sample_preset, watercolor_preset] = Some none_preset
   \<and> distinct (map p_id [none_preset, sample_preset, watercolor_preset])
   \<and> seed_presets [none_preset, sample_preset, watercolor_preset] [edited_preset]
       = [edited_preset, none_preset, watercolor_preset]
   \<and> p_description edited_preset \<noteq> p_description sample_preset"
  using seed_presets_registry
    [of "[none_preset, sample_preset, watercolor_preset]" none_preset "[edited_preset]"
        None None None initial_state]
  by (simp add: eval_defs4)

section \<open>The status of a task\<close>

lemma same_id_same_task:
  "distinct (map t_id ts) \<Longrightarrow> t \<in> set ts \<Longrightarrow> u \<in> set ts \<Longrightarrow> t_id t = t_id u \<Longrightarrow> t = u"
  by (meson distinct_map inj_onD)

lemma transitions_ok_same_tasks:
  assumes "distinct (map t_id (tasks st))" "tasks st' = tasks st"
  shows "transitions_ok st st'"
  using assms same_id_same_task [OF assms(1)]
  by (auto simp: transitions_ok_def list_all_iff status_step_def)

lemma orchestrator_inv_cong:
  "tasks st' = tasks st \<Longrightarrow> calls st' = calls st \<Longrightarrow> orchestrator_inv st' = orchestrator_inv st"
  by (simp add: orchestrator_inv_def)

lemma mark_old_tasks:
  assumes "list_all task_wf ts" "batch_unused (string_of_nat n) ts"
  shows "map (mark_generating (set (map t_id (newTasks (string_of_nat n) fp ps)))) ts = ts"
proof -
  have "mark_generating (set (map t_id (newTasks (string_of_nat n) fp ps))) t = t"
    if "t \<in> set ts" for t
    using that old_ids_not_new [OF assms, of fp ps]
    by (auto simp: mark_generating_def)
  then show ?thesis by (simp add: map_idI)
qed

lemma mark_new_tasks:
  "map (mark_generating (set (map t_id nts))) nts = map (\<lambda>t. t\<lparr>t_status := Generating\<rparr>) nts"
  by (simp add: mark_generating_def)

lemma call_wf_fresh:
  assumes "call_wf c" "c_batchId c \<noteq> b" "CHR ''-'' \<notin> set b"
  shows "t_id (c_task c) \<noteq> task_id b r i"
  using assms prefixed_id_differs [of "c_batchId c" "t_id (c_task c)" b r i]
  by (simp add: call_wf_def)

lemma handleGenerate_fresh_tasks:
  assumes "submits rp rr st" "ids_wf (tasks st)" "batch_unused (string_of_nat now) (tasks st)"
  shows "tasks (handleGenerate rp rr now st) =
     tasks st @ map (\<lambda>t. t\<lparr>t_status := Generating\<rparr>)
                  (newTasks (string_of_nat now) (finalPrompt rp st) (params st))"
proof -
  let ?nts = "newTasks (string_of_nat now) (finalPrompt rp st) (params st)"
  from assms(2) have "list_all task_wf (tasks st)" by (simp add: ids_wf_def)
  from mark_old_tasks [OF this assms(3), of "finalPrompt rp st" "params st"]
  show ?thesis
    unfolding handleGenerate_tasks [OF assms(1)] map_append mark_new_tasks by simp
qed

lemma new_call_ids:
  "map (\<lambda>c. t_id (c_task c)) (map (make_call b fp refs st0) nts) = map t_id nts"
  by (simp add: make_call_def comp_def)

lemma generate_inv:
  assumes inv: "orchestrator_inv st" and fresh: "fresh_clock now st"
    and dist: "distinct (gp_aspectRatios (params st))" and sub: "submits rp rr st"
  shows "orchestrator_inv (handleGenerate rp rr now st)"
proof -
  let ?b = "string_of_nat now"
  let ?nts = "newTasks ?b (finalPrompt rp st) (params st)"
  let ?ncs = "map (make_call ?b (finalPrompt rp st) (finalRefImages rr st) st) ?nts"
  let ?st' = "handleGenerate rp rr now st"
  from inv have wf: "ids_wf (tasks st)"
    and cd: "distinct (map (\<lambda>c. t_id (c_task c)) (calls st))"
    and cw: "list_all call_wf (calls st)"
    and cg: "\<And>c t. c \<in> set (calls st) \<Longrightarrow> t \<in> set (tasks st) \<Longrightarrow>
               t_id t = t_id (c_task c) \<Longrightarrow> t_status t = Generating"
    by (auto simp: orchestrator_inv_def list_all_iff)
  from fresh have unused: "batch_unused ?b (tasks st)"
    and cfresh: "\<And>c. c \<in> set (calls st) \<Longrightarrow> c_batchId c \<noteq> ?b"
    by (auto simp: fresh_clock_def list_all_iff)
  have T: "tasks ?st' = tasks st @ map (\<lambda>t. t\<lparr>t_status := Generating\<rparr>) ?nts"
    using sub wf unused by (rule handleGenerate_fresh_tasks)
  have C: "calls ?st' = calls st @ ?ncs"
    using sub by (rule handleGenerate_calls)
  have new_id: "\<exists>r i. t_id u = task_id ?b r i" if "u \<in> set ?nts" for u
  proof -
    from newTasks_member [OF that] obtain r i
      where "u = new_task ?b (finalPrompt rp st) r i" by blast
    then have "t_id u = task_id ?b r i" by (simp add: new_task_def)
    then show ?thesis by blast
  qed
  have old_call_new_task: "t_id (c_task c) \<noteq> t_id u" if "c \<in> set (calls st)" "u \<in> set ?nts" for c u
  proof -
    from new_id [OF that(2)] obtain r i where "t_id u = task_id ?b r i" by blast
    moreover from cw that(1) have "call_wf c" by (simp add: list_all_iff)
    ultimately show ?thesis
      using call_wf_fresh [OF _ cfresh [OF that(1)] string_of_nat_no_dash, of r i] by simp
  qed
  have old_task_new_task: "t_id t \<noteq> t_id u" if "t \<in> set (tasks st)" "u \<in> set ?nts" for t u
    using old_ids_not_new [of "tasks st" now "finalPrompt rp st" "params st"] wf unused that
    by (auto simp: ids_wf_def)
  have 1: "ids_wf (tasks ?st')"
    using sub dist wf unused by (rule handleGenerate_ids_wf)
  have 2: "distinct (map (\<lambda>c. t_id (c_task c)) (calls ?st'))"
  proof -
    have "distinct (map t_id ?nts)" using dist by (rule distinct_newTasks_ids)
    moreover have "set (map (\<lambda>c. t_id (c_task c)) (calls st)) \<inter> set (map t_id ?nts) = {}"
      using old_call_new_task by auto
    ultimately show ?thesis
      using cd unfolding C map_append new_call_ids distinct_append by blast
  qed
  have 3: "list_all call_wf (calls ?st')"
  proof -
    have "call_wf (make_call ?b fp refs st u)" if "u \<in> set ?nts" for u fp refs
      using new_id [OF that]
      by (auto simp: call_wf_def make_call_def task_id_def string_of_nat_no_dash)
    with cw show ?thesis unfolding C by (auto simp: list_all_iff)
  qed
  have 4: "t_status t = Generating"
    if "c \<in> set (calls ?st')" "t \<in> set (tasks ?st')" "t_id t = t_id (c_task c)" for c t
  proof (cases "c \<in> set (calls st)")
    case True
    show ?thesis
    proof (cases "t \<in> set (tasks st)")
      case True
      from \<open>c \<in> set (calls st)\<close> True that(3) show ?thesis by (rule cg)
    next
      case False
      with that(2) obtain u where "u \<in> set ?nts" "t = u\<lparr>t_status := Generating\<rparr>"
        unfolding T by auto
      then show ?thesis by simp
    qed
  next
    case False
    with that(1) obtain u where u: "u \<in> set ?nts" "t_id (c_task c) = t_id u"
      unfolding C by (auto simp: make_call_def)
    show ?thesis
    proof (cases "t \<in> set (tasks st)")
      case True
      with old_task_new_task [OF True u(1)] that(3) u(2) show ?thesis by simp
    next
      case False
      with that(2) obtain v where "v \<in> set ?nts" "t = v\<lparr>t_status := Generating\<rparr>"
        unfolding T by auto
      then show ?thesis by simp
    qed
  qed
  from 1 2 3 4 show ?thesis
    unfolding orchestrator_inv_def list_all_iff by blast
qed

lemma generate_transitions:
  assumes inv: "orchestrator_inv st" and fresh: "fresh_clock now st"
    and sub: "submits rp rr st"
  shows "transitions_ok st (handleGenerate rp rr now st)"
proof -
  let ?b = "string_of_nat now"
  let ?nts = "newTasks ?b (finalPrompt rp st) (params st)"
  let ?st' = "handleGenerate rp rr now st"
  from inv have wf: "ids_wf (tasks st)" by (simp add: orchestrator_inv_def)
  from fresh have unused: "batch_unused ?b (tasks st)" by (simp add: fresh_clock_def)
  have T: "tasks ?st' = tasks st @ map (\<lambda>t. t\<lparr>t_status := Generating\<rparr>) ?nts"
    using sub wf unused by (rule handleGenerate_fresh_tasks)
  have old_task_new_task: "t_id t \<noteq> t_id u" if "t \<in> set (tasks st)" "u \<in> set ?nts" for t u
    using old_ids_not_new [of "tasks st" now "finalPrompt rp st" "params st"] wf unused that
    by (auto simp: ids_wf_def)
  have a: "status_step (t_status t) (t_status t')"
    if "t \<in> set (tasks st)" "t' \<in> set (tasks ?st')" "t_id t' = t_id t" for t t'
  proof (cases "t' \<in> set (tasks st)")
    case True
    with wf that(1,3) have "t' = t"
      by (auto simp: ids_wf_def intro: same_id_same_task)
    then show ?thesis by (simp add: status_step_def)
  next
    case False
    with that(2) obtain u where "u \<in> set ?nts" "t' = u\<lparr>t_status := Generating\<rparr>"
      unfolding T by auto
    with old_task_new_task [OF that(1), of u] that(3) show ?thesis by simp
  qed
  have b: "t_status t' = Generating"
    if "t' \<in> set (tasks ?st')" "t_id t' \<notin> set (map t_id (tasks st))" for t'
  proof -
    from that(2) have "t' \<notin> set (tasks st)" by auto
    with that(1) obtain u where "u \<in> set ?nts" "t' = u\<lparr>t_status := Generating\<rparr>"
      unfolding T by auto
    then show ?thesis by simp
  qed
  from a b show ?thesis
    unfolding transitions_ok_def list_all_iff by blast
qed

lemma generate_step:
  assumes "orchestrator_inv st" "fresh_clock now st" "distinct (gp_aspectRatios (params st))"
  shows "orchestrator_inv (handleGenerate rp rr now st) \<and>
         transitions_ok st (handleGenerate rp rr now st)"
proof (cases "submits rp rr st")
  case True
  with assms show ?thesis
    by (simp add: generate_inv generate_transitions)
next
  case False
  note ns = handleGenerate_not_submits [OF False, of now]
  from assms(1) have "distinct (map t_id (tasks st))"
    by (simp add: orchestrator_inv_def ids_wf_def)
  then have "transitions_ok st (handleGenerate rp rr now st)"
    using ns(1) by (rule transitions_ok_same_tasks)
  moreover have "orchestrator_inv (handleGenerate rp rr now st)"
    using assms(1) orchestrator_inv_cong [OF ns(1) ns(2)] by simp
  ultimately show ?thesis by simp
qed

lemma regenerate_step:
  assumes "orchestrator_inv st" "fresh_clock now st" "distinct (gp_aspectRatios (params st))"
  shows "orchestrator_inv (handleRegenerateBatch ts now st) \<and>
         transitions_ok st (handleRegenerateBatch ts now st)"
proof -
  from assms(1) have d: "distinct (map t_id (tasks st))"
    by (simp add: orchestrator_inv_def ids_wf_def)
  have "handleRegenerateBatch ts now st = st \<or>
        (\<exists>rp rr. handleRegenerateBatch ts now st = handleGenerate rp rr now st)"
    by (auto simp: handleRegenerateBatch_def split: list.splits option.splits)
  then show ?thesis
  proof
    assume "handleRegenerateBatch ts now st = st"
    with assms(1) d show ?thesis
      by (simp add: transitions_ok_same_tasks)
  next
    assume "\<exists>rp rr. handleRegenerateBatch ts now st = handleGenerate rp rr now st"
    then obtain rp rr where "handleRegenerateBatch ts now st = handleGenerate rp rr now st"
      by blast
    with generate_step [OF assms, of rp rr] show ?thesis by simp
  qed
qed

lemma settle_tasks_map:
  "tasks (settle c outcome now save st) = map (settle_task c outcome now save) (tasks st)"
  by (simp add: settle_tasks settle_task_def split: gen_outcome.splits save_outcome.splits)

lemma settle_task_id [simp]: "t_id (settle_task c outcome now save t) = t_id t"
  by (simp add: settle_task_def set_error_def set_success_def
        split: gen_outcome.splits save_outcome.splits)

lemma settle_task_batchId [simp]: "t_batchId (settle_task c outcome now save t) = t_batchId t"
  by (simp add: settle_task_def set_error_def set_success_def
        split: gen_outcome.splits save_outcome.splits)

lemma settle_task_other:
  "t_id t \<noteq> t_id (c_task c) \<Longrightarrow> settle_task c outcome now save t = t"
  by (simp add: settle_task_def set_error_def set_success_def
        split: gen_outcome.splits save_outcome.splits)

lemma settle_task_status:
  "t_id t = t_id (c_task c) \<Longrightarrow>
     t_status (settle_task c outcome now save t) = Success \<or>
     t_status (settle_task c outcome now save t) = Error"
  by (simp add: settle_task_def set_error_def set_success_def
        split: gen_outcome.splits save_outcome.splits)

lemma task_wf_settle [simp]: "task_wf (settle_task c outcome now save t) = task_wf t"
  by (simp add: task_wf_def split: option.splits)

lemma remove1_other_key:
  assumes "distinct (map f xs)" "y \<in> set (remove1 x xs)" "x \<in> set xs"
  shows "f y \<noteq> f x"
proof -
  from assms(1) have d: "distinct xs" and i: "inj_on f (set xs)"
    by (simp_all add: distinct_map)
  from d assms(2) have "y \<in> set xs" "y \<noteq> x"
    by (simp_all add: set_remove1_eq)
  with i assms(3) show ?thesis
    by (auto dest: inj_onD)
qed

lemma distinct_map_remove1:
  assumes "distinct (map f xs)"
  shows "distinct (map f (remove1 x xs))"
proof -
  from assms have d: "distinct xs" and i: "inj_on f (set xs)"
    by (simp_all add: distinct_map)
  have "set (remove1 x xs) \<subseteq> set xs" by (rule set_remove1_subset)
  with i have "inj_on f (set (remove1 x xs))" by (rule inj_on_subset)
  with d show ?thesis by (simp add: distinct_map)
qed

lemma settle_step:
  assumes inv: "orchestrator_inv st" and c: "c \<in> set (calls st)"
  shows "orchestrator_inv (settle c outcome now save st) \<and>
         transitions_ok st (settle c outcome now save st)"
proof -
  let ?st' = "settle c outcome now save st"
  let ?g = "settle_task c outcome now save"
  from inv have wf: "ids_wf (tasks st)"
    and cd: "distinct (map (\<lambda>c. t_id (c_task c)) (calls st))"
    and cw: "list_all call_wf (calls st)"
    and cg: "\<And>c t. c \<in> set (calls st) \<Longrightarrow> t \<in> set (tasks st) \<Longrightarrow>
               t_id t = t_id (c_task c) \<Longrightarrow> t_status t = Generating"
    by (auto simp: orchestrator_inv_def list_all_iff)
  have T: "tasks ?st' = map ?g (tasks st)" by (rule settle_tasks_map)
  have C: "calls ?st' = remove1 c (calls st)" by (rule settle_calls)
  have 1: "ids_wf (tasks ?st')"
    using wf unfolding T by (simp add: ids_wf_def comp_def list_all_iff)
  have 2: "distinct (map (\<lambda>c. t_id (c_task c)) (calls ?st'))"
    unfolding C using cd by (rule distinct_map_remove1)
  have 3: "list_all call_wf (calls ?st')"
    unfolding C using cw set_remove1_subset [of c "calls st"] by (auto simp: list_all_iff)
  have 4: "t_status t' = Generating"
    if "c' \<in> set (calls ?st')" "t' \<in> set (tasks ?st')" "t_id t' = t_id (c_task c')" for c' t'
  proof -
    from that(1) have c': "c' \<in> set (remove1 c (calls st))" by (simp add: C)
    then have c'': "c' \<in> set (calls st)"
      using set_remove1_subset [of c "calls st"] by blast
    from remove1_other_key [OF cd c' c] have ne: "t_id (c_task c') \<noteq> t_id (c_task c)" .
    from that(2) obtain t where t: "t \<in> set (tasks st)" "t' = ?g t" unfolding T by auto
    with that(3) ne have "t' = t" by (simp add: settle_task_other)
    with t(1) that(3) c'' show ?thesis by (auto intro: cg)
  qed
  have a: "status_step (t_status t) (t_status t')"
    if "t \<in> set (tasks st)" "t' \<in> set (tasks ?st')" "t_id t' = t_id t" for t t'
  proof -
    from that(2) obtain u where u: "u \<in> set (tasks st)" "t' = ?g u" unfolding T by auto
    with that(3) have "t_id u = t_id t" by simp
    with wf that(1) u(1) have "u = t"
      by (auto simp: ids_wf_def intro: same_id_same_task)
    show ?thesis
    proof (cases "t_id t = t_id (c_task c)")
      case True
      from c that(1) True have "t_status t = Generating" by (rule cg)
      with settle_task_status [OF True, of outcome now save] u(2) \<open>u = t\<close>
      show ?thesis by (auto simp: status_step_def)
    next
      case False
      with u(2) \<open>u = t\<close> show ?thesis
        by (simp add: settle_task_other status_step_def)
    qed
  qed
  have b: "t_status t' = Generating"
    if "t' \<in> set (tasks ?st')" "t_id t' \<notin> set (map t_id (tasks st))" for t'
    using that unfolding T by auto
  from 1 2 3 4 a b show ?thesis
    unfolding orchestrator_inv_def transitions_ok_def list_all_iff by blast
qed

lemma delete_step:
  assumes inv: "orchestrator_inv st"
  shows "orchestrator_inv (handleDeleteTask k st) \<and> transitions_ok st (handleDeleteTask k st)"
proof -
  from inv have d: "distinct (map t_id (tasks st))"
    by (simp add: orchestrator_inv_def ids_wf_def)
  have "orchestrator_inv (handleDeleteTask k st)"
    using inv
    by (auto simp: orchestrator_inv_def handleDeleteTask_def ids_wf_def list_all_iff
          distinct_map_filter)
  moreover have "transitions_ok st (handleDeleteTask k st)"
    using same_id_same_task [OF d]
    by (auto simp: transitions_ok_def handleDeleteTask_def list_all_iff status_step_def)
  ultimately show ?thesis by simp
qed

lemma replace_task_data_fields [simp]:
  "t_id (replace_task_data upd t) = t_id t"
  "t_batchId (replace_task_data upd t) = t_batchId t"
  "t_status (replace_task_data upd t) = t_status t"
  by (simp_all add: replace_task_data_def split: option.splits)

lemma task_wf_replace [simp]: "task_wf (replace_task_data upd t) = task_wf t"
  by (simp add: task_wf_def split: option.splits)

lemma toggle_step:
  assumes inv: "orchestrator_inv st"
  shows "orchestrator_inv (handleToggleFavorite img save st0 st) \<and>
         transitions_ok st (handleToggleFavorite img save st0 st)"
proof (cases save)
  case SaveOk
  from inv have d: "distinct (map t_id (tasks st))"
    by (simp add: orchestrator_inv_def ids_wf_def)
  have T: "tasks (handleToggleFavorite img SaveOk st0 st) =
      map (replace_task_data (updatedImage img)) (tasks st)"
    and C: "calls (handleToggleFavorite img SaveOk st0 st) = calls st"
    by (simp_all add: handleToggleFavorite_ok)
  have "orchestrator_inv (handleToggleFavorite img SaveOk st0 st)"
    using inv unfolding orchestrator_inv_def T C
    by (auto simp: ids_wf_def comp_def list_all_iff)
  moreover have "transitions_ok st (handleToggleFavorite img SaveOk st0 st)"
    unfolding transitions_ok_def T list_all_iff
    using same_id_same_task [OF d]
    by (auto simp: status_step_def)
  ultimately show ?thesis using SaveOk by simp
next
  case (SaveRejected m)
  from inv have d: "distinct (map t_id (tasks st))"
    by (simp add: orchestrator_inv_def ids_wf_def)
  have "handleToggleFavorite img save st0 st = st"
    using SaveRejected by (simp add: handleToggleFavorite_def)
  with inv d show ?thesis by (simp add: transitions_ok_same_tasks)
qed

lemmas eval_defs5 = eval_defs3 second_call_def collided_state_def
  bare_state_def bare_call_def bare_done_state_def

lemma generate_unconditional:
  "(list_all (\<lambda>t. t_status t \<noteq> Pending) (tasks st) \<longrightarrow>
      list_all (\<lambda>t. t_status t \<noteq> Pending) (tasks (handleGenerate rp rr now st)))
   \<and> list_all (\<lambda>t'. t_id t' \<notin> set (map t_id (tasks st)) \<longrightarrow> t_status t' = Generating)
       (tasks (handleGenerate rp rr now st))"
proof (cases "submits rp rr st")
  case True
  let ?nts = "newTasks (string_of_nat now) (finalPrompt rp st) (params st)"
  let ?S = "set (map t_id ?nts)"
  have T: "tasks (handleGenerate rp rr now st) = map (mark_generating ?S) (tasks st @ ?nts)"
    using True by (rule handleGenerate_tasks)
  have n: "t_status (mark_generating ?S u) = Generating" if "u \<in> set ?nts" for u
    using that by (simp add: mark_generating_def)
  have o: "t_status (mark_generating ?S u) \<noteq> Pending" if "t_status u \<noteq> Pending" for u
    using that by (simp add: mark_generating_def)
  have src: "\<exists>u. (u \<in> set (tasks st) \<or> u \<in> set ?nts) \<and> t' = mark_generating ?S u"
    if "t' \<in> set (tasks (handleGenerate rp rr now st))" for t'
    using that unfolding T by auto
  have a: "t_status t' \<noteq> Pending"
    if "\<forall>t \<in> set (tasks st). t_status t \<noteq> Pending"
      "t' \<in> set (tasks (handleGenerate rp rr now st))" for t'
  proof -
    from src [OF that(2)] obtain u
      where u: "u \<in> set (tasks st) \<or> u \<in> set ?nts" "t' = mark_generating ?S u" by blast
    from u(1) show ?thesis
    proof
      assume "u \<in> set (tasks st)"
      with that(1) have "t_status u \<noteq> Pending" by blast
      from o [OF this] u(2) show ?thesis by simp
    next
      assume "u \<in> set ?nts"
      from n [OF this] u(2) show ?thesis by simp
    qed
  qed
  have b: "t_status t' = Generating"
    if "t' \<in> set (tasks (handleGenerate rp rr now st))"
      "t_id t' \<notin> set (map t_id (tasks st))" for t'
  proof -
    from src [OF that(1)] obtain u
      where u: "u \<in> set (tasks st) \<or> u \<in> set ?nts" "t' = mark_generating ?S u" by blast
    from u(2) have "t_id t' = t_id u" by simp
    with that(2) have "u \<notin> set (tasks st)" by auto
    with u(1) have "u \<in> set ?nts" by blast
    from n [OF this] u(2) show ?thesis by simp
  qed
  from a b show ?thesis
    unfolding list_all_iff by blast
next
  case False
  then have "tasks (handleGenerate rp rr now st) = tasks st"
    by (rule handleGenerate_not_submits)
  then show ?thesis by (simp add: list_all_iff)
qed

lemma step_unconditional:
  "(list_all (\<lambda>t. t_status t \<noteq> Pending) (tasks st) \<longrightarrow>
      list_all (\<lambda>t. t_status t \<noteq> Pending) (tasks (step e st)))
   \<and> list_all (\<lambda>t'. t_id t' \<notin> set (map t_id (tasks st)) \<longrightarrow> t_status t' = Generating)
       (tasks (step e st))"
proof (cases e)
  case (Generate rp rr now)
  then show ?thesis using generate_unconditional [of st rp rr now] by simp
next
  case (RegenerateBatch ts now)
  have "handleRegenerateBatch ts now st = st \<or>
        (\<exists>rp rr. handleRegenerateBatch ts now st = handleGenerate rp rr now st)"
    by (auto simp: handleRegenerateBatch_def split: list.splits option.splits)
  then show ?thesis
  proof
    assume "handleRegenerateBatch ts now st = st"
    with RegenerateBatch show ?thesis by (simp add: list_all_iff)
  next
    assume "\<exists>rp rr. handleRegenerateBatch ts now st = handleGenerate rp rr now st"
    then obtain rp rr where "handleRegenerateBatch ts now st = handleGenerate rp rr now st"
      by blast
    with RegenerateBatch generate_unconditional [of st rp rr now] show ?thesis by simp
  qed
next
  case (Settle c outcome now save)
  have "t_status (settle_task c outcome now save t) \<noteq> Pending" if "t_status t \<noteq> Pending" for t
    using that
    by (simp add: settle_task_def set_error_def set_success_def
          split: gen_outcome.splits save_outcome.splits)
  then show ?thesis
    using Settle by (auto simp: settle_tasks_map list_all_iff)
next
  case (DeleteTask k)
  then show ?thesis
    by (auto simp: handleDeleteTask_def list_all_iff)
next
  case (ToggleFavorite img save st0)
  have "tasks (handleToggleFavorite img save st0 st) = tasks st \<or>
        tasks (handleToggleFavorite img save st0 st) =
          map (replace_task_data (updatedImage img)) (tasks st)"
    by (cases save) (simp_all add: handleToggleFavorite_ok, simp add: handleToggleFavorite_def)
  then show ?thesis
    using ToggleFavorite by (auto simp: list_all_iff)
qed

lemma step_conditional:
  assumes "orchestrator_inv st" "event_ok e st"
  shows "orchestrator_inv (step e st) \<and> transitions_ok st (step e st)"
proof (cases e)
  case (Generate rp rr now)
  with assms generate_step [of st now rp rr] show ?thesis by simp
next
  case (RegenerateBatch ts now)
  with assms regenerate_step [of st now ts] show ?thesis by simp
next
  case (Settle c outcome now save)
  with assms settle_step [of st c outcome now save] show ?thesis by simp
next
  case (DeleteTask k)
  with assms delete_step [of st k] show ?thesis by simp
next
  case (ToggleFavorite img save st0)
  with assms toggle_step [of st img save st0] show ?thesis by simp
qed

text \<open>
  Claim C4, as amended. Without any assumption: a new task is built with the status
  \<^verbatim>\<open>pending\<close>; the dispatch of a task first sets every task with its id to
  \<^verbatim>\<open>generating\<close>, no call being issued by that update, and then issues the call, which
  changes no task; no handler leaves a task \<^verbatim>\<open>pending\<close> in the list when there was none
  before, and there is none initially; and a task whose id is new after a handler is
  \<^verbatim>\<open>generating\<close>. So no listed task is ever \<^verbatim>\<open>pending\<close> between two handlers, and
  \<^verbatim>\<open>success\<close> and \<^verbatim>\<open>error\<close> are never given to a \<^verbatim>\<open>pending\<close> task. Provided the task
  ids are unique, that is in a well-formed state (which the initial state is, and which
  every handler keeps when a batch is submitted at a clock reading carried by no listed
  task and no call in flight, with pairwise distinct ratios, and a completing call is in
  flight): a task that stays in the list keeps its status or goes from \<^verbatim>\<open>generating\<close> to
  \<^verbatim>\<open>success\<close> or \<^verbatim>\<open>error\<close>, and a task whose status is \<^verbatim>\<open>success\<close> or \<^verbatim>\<open>error\<close>
  keeps it.
\<close>

theorem status_transitions:
  "list_all (\<lambda>t. t_status t = Pending) (newTasks b fp ps)
   \<and> dispatch b fp refs st0 task s = issue_call b fp refs st0 task (start_generating task s)
   \<and> list_all (\<lambda>t. t_id t = t_id task \<longrightarrow> t_status t = Generating)
       (tasks (start_generating task s))
   \<and> calls (start_generating task s) = calls s
   \<and> tasks (issue_call b fp refs st0 task s) = tasks s
   \<and> calls (issue_call b fp refs st0 task s) = calls s @ [make_call b fp refs st0 task]
   \<and> list_all (\<lambda>t. t_status t \<noteq> Pending) (tasks initial_state)
   \<and> (list_all (\<lambda>t. t_status t \<noteq> Pending) (tasks st) \<longrightarrow>
        list_all (\<lambda>t. t_status t \<noteq> Pending) (tasks (step e st)))
   \<and> list_all (\<lambda>t'. t_id t' \<notin> set (map t_id (tasks st)) \<longrightarrow> t_status t' = Generating)
       (tasks (step e st))
   \<and> orchestrator_inv initial_state
   \<and> (orchestrator_inv st \<and> event_ok e st \<longrightarrow>
        orchestrator_inv (step e st)
        \<and> list_all (\<lambda>t. list_all (\<lambda>t'. t_id t' = t_id t \<longrightarrow>
                                      status_step (t_status t) (t_status t'))
                          (tasks (step e st))) (tasks st)
        \<and> list_all (\<lambda>t. t_status t = Success \<or> t_status t = Error \<longrightarrow>
                         list_all (\<lambda>t'. t_id t' = t_id t \<longrightarrow> t_status t' = t_status t)
                           (tasks (step e st))) (tasks st))"
proof -
  have p: "list_all (\<lambda>t. t_status t = Pending) (newTasks b fp ps)"
    by (auto simp: list_all_iff new_task_def dest!: newTasks_member)
  have d: "dispatch b fp refs st0 task s = issue_call b fp refs st0 task (start_generating task s)"
    by (simp add: dispatch_def)
  have g: "list_all (\<lambda>t. t_id t = t_id task \<longrightarrow> t_status t = Generating)
       (tasks (start_generating task s))"
    "calls (start_generating task s) = calls s"
    by (auto simp: start_generating_def list_all_iff set_generating_def)
  have c: "tasks (issue_call b fp refs st0 task s) = tasks s"
    "calls (issue_call b fp refs st0 task s) = calls s @ [make_call b fp refs st0 task]"
    by (simp_all add: issue_call_def)
  have i: "list_all (\<lambda>t. t_status t \<noteq> Pending) (tasks initial_state)"
    "orchestrator_inv initial_state"
    by (simp_all add: orchestrator_inv_def initial_state_def ids_wf_def)
  have k: "orchestrator_inv (step e st)
        \<and> list_all (\<lambda>t. list_all (\<lambda>t'. t_id t' = t_id t \<longrightarrow>
                                      status_step (t_status t) (t_status t'))
                          (tasks (step e st))) (tasks st)
        \<and> list_all (\<lambda>t. t_status t = Success \<or> t_status t = Error \<longrightarrow>
                         list_all (\<lambda>t'. t_id t' = t_id t \<longrightarrow> t_status t' = t_status t)
                           (tasks (step e st))) (tasks st)"
    if "orchestrator_inv st \<and> event_ok e st"
  proof -
    from that step_conditional [of st e]
    have main: "orchestrator_inv (step e st)" "transitions_ok st (step e st)" by simp_all
    then have tr: "\<And>t t'. t \<in> set (tasks st) \<Longrightarrow> t' \<in> set (tasks (step e st)) \<Longrightarrow>
        t_id t' = t_id t \<Longrightarrow> status_step (t_status t) (t_status t')"
      by (auto simp: transitions_ok_def list_all_iff)
    have fin: "t_status t' = t_status t"
      if "t \<in> set (tasks st)" "t_status t = Success \<or> t_status t = Error"
        "t' \<in> set (tasks (step e st))" "t_id t' = t_id t" for t t'
      using tr [OF that(1,3,4)] that(2) by (auto simp: status_step_def)
    from main(1) tr fin show ?thesis
      unfolding list_all_iff by blast
  qed
  from p d g c i step_unconditional [of st e] k show ?thesis
    by blast
qed

theorem status_transitions_witness:
  "orchestrator_inv single_state
   \<and> event_ok (Generate None None 5) single_state
   \<and> list_all (\<lambda>t. t_status t \<noteq> Pending) (tasks single_state)
   \<and> orchestrator_inv (handleGenerate None None 5 single_state)
   \<and> list_all (\<lambda>t. t_status t \<noteq> Pending) (tasks (handleGenerate None None 5 single_state))
   \<and> event_ok (Settle sample_call (Resolved ''u'') 9 SaveOk) (handleGenerate None None 5 single_state)
   \<and> map t_status (tasks (handleGenerate None None 5 single_state)) = [Generating]
   \<and> map t_status (tasks (step (Settle sample_call (Resolved ''u'') 9 SaveOk)
                             (handleGenerate None None 5 single_state))) = [Success]
   \<and> orchestrator_inv (step (Settle sample_call (Resolved ''u'') 9 SaveOk)
                         (handleGenerate None None 5 single_state))
   \<and> list_all (\<lambda>t. t_status t \<noteq> Pending)
       (tasks (step (Settle sample_call (Resolved ''u'') 9 SaveOk)
                 (handleGenerate None None 5 single_state)))"
proof -
  have i: "orchestrator_inv single_state" and e: "event_ok (Generate None None 5) single_state"
    and n: "list_all (\<lambda>t. t_status t \<noteq> Pending) (tasks single_state)"
    by (simp_all add: eval_defs orchestrator_inv_def ids_wf_def fresh_clock_def batch_unused_def)
  from status_transitions [where st = single_state and e = "Generate None None 5"] i e n
  have i1: "orchestrator_inv (handleGenerate None None 5 single_state)"
    and n1: "list_all (\<lambda>t. t_status t \<noteq> Pending) (tasks (handleGenerate None None 5 single_state))"
    by simp_all
  have e1: "event_ok (Settle sample_call (Resolved ''u'') 9 SaveOk)
      (handleGenerate None None 5 single_state)"
    by (simp add: eval_defs2)
  from status_transitions [where st = "handleGenerate None None 5 single_state"
      and e = "Settle sample_call (Resolved ''u'') 9 SaveOk"] i1 e1 n1
  have "orchestrator_inv (step (Settle sample_call (Resolved ''u'') 9 SaveOk)
                         (handleGenerate None None 5 single_state))"
    "list_all (\<lambda>t. t_status t \<noteq> Pending)
       (tasks (step (Settle sample_call (Resolved ''u'') 9 SaveOk)
                 (handleGenerate None None 5 single_state)))"
    by simp_all
  moreover have "map t_status (tasks (handleGenerate None None 5 single_state)) = [Generating]"
    "map t_status (tasks (step (Settle sample_call (Resolved ''u'') 9 SaveOk)
                             (handleGenerate None None 5 single_state))) = [Success]"
    by (simp_all add: eval_defs2)
  ultimately show ?thesis using i e n i1 n1 e1 by simp
qed

text \<open>
  The claim as stated fails: a batch and its retry submitted at one clock reading share
  their task ids; when the first call is rejected both tasks become \<^verbatim>\<open>error\<close>, and when
  the second call succeeds both go from \<^verbatim>\<open>error\<close> to \<^verbatim>\<open>success\<close>.
\<close>

theorem status_same_instant_counterexample:
  "calls collided_state = [sample_call, second_call]
   \<and> map t_id (tasks (settle sample_call (Rejected None) 9 SaveOk collided_state))
       = [''5-1:1-0'', ''5-1:1-0'']
   \<and> map t_status (tasks (settle sample_call (Rejected None) 9 SaveOk collided_state))
       = [Error, Error]
   \<and> map t_status (tasks (settle second_call (Resolved ''u'') 9 SaveOk
                             (settle sample_call (Rejected None) 9 SaveOk collided_state)))
       = [Success, Success]"
  by (simp add: eval_defs5)

section \<open>Retry of a batch\<close>

text \<open>
  What a retry of a batch with completed data submits: the prompt and the references of
  that data go to \<^verbatim>\<open>handleGenerate\<close>, which prefixes the prompt only when it is empty,
  and appends the images of the selected preset in every case.
\<close>

lemma handleRegenerateBatch_with_data:
  assumes "find (\<lambda>t. t_data t \<noteq> None) batchTasks = Some t" "t_data t = Some d"
  shows "handleRegenerateBatch batchTasks now st =
           handleGenerate (Some (i_prompt d)) (Some (i_referenceImages d)) now st"
    and "finalPrompt (Some (i_prompt d)) st =
           (case selected_style st of
              None \<Rightarrow> i_prompt d
            | Some style \<Rightarrow>
                if i_prompt d = [] \<and> p_id style \<noteq> ''none''
                then p_description style @ ''. '' else i_prompt d)"
    and "finalRefImages (Some (i_referenceImages d)) st =
           i_referenceImages d @
           (case selected_style st of
              None \<Rightarrow> []
            | Some style \<Rightarrow> (case p_referenceImages style of None \<Rightarrow> [] | Some r \<Rightarrow> r))"
proof -
  from assms(1) have "batchTasks \<noteq> []" by auto
  with assms show "handleRegenerateBatch batchTasks now st =
           handleGenerate (Some (i_prompt d)) (Some (i_referenceImages d)) now st"
    by (cases batchTasks) (simp_all add: handleRegenerateBatch_def)
  show "finalPrompt (Some (i_prompt d)) st =
           (case selected_style st of
              None \<Rightarrow> i_prompt d
            | Some style \<Rightarrow>
                if i_prompt d = [] \<and> p_id style \<noteq> ''none''
                then p_description style @ ''. '' else i_prompt d)"
    by (simp add: finalPrompt_def truthy_def effectivePrompt_def split: option.splits)
  show "finalRefImages (Some (i_referenceImages d)) st =
           i_referenceImages d @
           (case selected_style st of
              None \<Rightarrow> []
            | Some style \<Rightarrow> (case p_referenceImages style of None \<Rightarrow> [] | Some r \<Rightarrow> r))"
    by (simp add: finalRefImages_def effectiveRefImages_def)
qed

text \<open>
  Claim C3 fails on the code. A batch resolved with the prompt
  \<^verbatim>\<open>Neon Noir style. a cat\<close> and the references \<^verbatim>\<open>u1, s1\<close> is retried with the preset
  still selected: the prompt sent is the resolved one, the references sent are
  \<^verbatim>\<open>u1, s1, s1\<close>, since line 367 appends the preset's images on a retry as well. And a
  batch resolved with the empty prompt is retried as if it were a fresh submission,
  since \<^verbatim>\<open>!retryPrompt\<close> holds for the empty string: the selected preset's description is
  prefixed.
\<close>

theorem handleRegenerateBatch_appends_preset_images_again:
  "calls (handleGenerate None None 5 single_state) = [sample_call]
   \<and> selectedStyleId done_state = ''neon''
   \<and> map (map_option i_prompt \<circ> t_data) (tasks done_state) = [Some ''Neon Noir style. a cat'']
   \<and> map (map_option i_referenceImages \<circ> t_data) (tasks done_state) = [Some [''u1'', ''s1'']]
   \<and> map c_prompt (calls (handleRegenerateBatch (tasks done_state) 6 done_state))
       = [''Neon Noir style. a cat'']
   \<and> map c_referenceImages (calls (handleRegenerateBatch (tasks done_state) 6 done_state))
       = [[''u1'', ''s1'', ''s1'']]
   \<and> calls (handleGenerate None None 5 bare_state) = [bare_call]
   \<and> map (map_option i_prompt \<circ> t_data) (tasks bare_done_state) = [Some []]
   \<and> map (map_option i_referenceImages \<circ> t_data) (tasks bare_done_state) = [Some [''u1'']]
   \<and> map c_prompt (calls (handleRegenerateBatch (tasks bare_done_state) 6 bare_done_state))
       = [''Neon Noir style. '']
   \<and> map c_referenceImages (calls (handleRegenerateBatch (tasks bare_done_state) 6 bare_done_state))
       = [[''u1'', ''s1'']]"
  by (simp add: eval_defs5)

end
